theory Spec2Isabelle
  imports Main
begin

unbundle bit_operations_syntax

section \<open>Exceptions as values\<close>

text \<open>
  Every exception the module can raise is a value.  \<open>ValueError\<close> and
  \<open>ReedSolomonError\<close> carry the message, since the source raises both with several
  messages: \<open>ValueError("message too long")\<close> is raised by the codec itself, the other
  \<open>ValueError\<close>s come from \<open>bytearray\<close> and \<open>max\<close>.
\<close>

datatype error =
    KeyError
  | IndexError
  | ZeroDivisionError
  | ValueError string
  | ReedSolomonError string

fun ebind :: "error + 'a \<Rightarrow> ('a \<Rightarrow> error + 'b) \<Rightarrow> error + 'b" where
  "ebind (Inl e) f = Inl e"
| "ebind (Inr x) f = f x"

text \<open>A \<open>for\<close> loop over a sequence, threading the loop's variables; an exception ends it.\<close>

fun for_each :: "'a list \<Rightarrow> ('a \<Rightarrow> 's \<Rightarrow> error + 's) \<Rightarrow> 's \<Rightarrow> error + 's" where
  "for_each [] body s = Inr s"
| "for_each (x # xs) body s = ebind (body x s) (for_each xs body)"

text \<open>A list comprehension whose element expression may raise.\<close>

fun emap :: "('a \<Rightarrow> error + 'b) \<Rightarrow> 'a list \<Rightarrow> error + 'b list" where
  "emap f [] = Inr []"
| "emap f (x # xs) = ebind (f x) (\<lambda>y. ebind (emap f xs) (\<lambda>ys. Inr (y # ys)))"

section \<open>Python sequences\<close>

text \<open>\<open>xs[i]\<close>: a negative index counts from the end, anything else out of range raises.\<close>

definition py_index :: "'a list \<Rightarrow> int \<Rightarrow> error + nat" where
  "py_index xs i =
     (if 0 \<le> i \<and> i < int (length xs) then Inr (nat i)
      else if i < 0 \<and> - int (length xs) \<le> i then Inr (nat (i + int (length xs)))
      else Inl IndexError)"

definition py_get :: "'a list \<Rightarrow> int \<Rightarrow> error + 'a" where
  "py_get xs i = ebind (py_index xs i) (\<lambda>j. Inr (xs ! j))"

definition py_set :: "'a list \<Rightarrow> int \<Rightarrow> 'a \<Rightarrow> error + 'a list" where
  "py_set xs i v = ebind (py_index xs i) (\<lambda>j. Inr (xs[j := v]))"

text \<open>\<open>range(a, b)\<close>.\<close>

definition py_range :: "int \<Rightarrow> int \<Rightarrow> int list" where
  "py_range a b = [a..b - 1]"

text \<open>\<open>xs[:stop]\<close> for an integer \<open>stop\<close> of either sign.\<close>

definition py_slice_to :: "'a list \<Rightarrow> int \<Rightarrow> 'a list" where
  "py_slice_to xs stop =
     (if stop < 0 then take (nat (int (length xs) + stop)) xs else take (nat stop) xs)"

text \<open>\<open>xs[0::2]\<close>.\<close>

fun every_second :: "'a list \<Rightarrow> 'a list" where
  "every_second [] = []"
| "every_second [x] = [x]"
| "every_second (x # y # xs) = x # every_second xs"

text \<open>\<open>max(xs)\<close> raises on the empty sequence.\<close>

definition py_max :: "int list \<Rightarrow> error + int" where
  "py_max xs = (case xs of [] \<Rightarrow> Inl (ValueError ''max() arg is an empty sequence'')
                | y # ys \<Rightarrow> Inr (fold max ys y))"

subsection \<open>bytearray\<close>

definition is_byte :: "int \<Rightarrow> bool" where
  "is_byte v \<longleftrightarrow> 0 \<le> v \<and> v < 256"

text \<open>\<open>bytearray(count)\<close>.\<close>

definition bytearray_new :: "int \<Rightarrow> error + int list" where
  "bytearray_new count =
     (if count < 0 then Inl (ValueError ''negative count'')
      else Inr (replicate (nat count) 0))"

text \<open>\<open>b[i] = v\<close> on a bytearray: the index is checked, then the value.\<close>

definition bytearray_set :: "int list \<Rightarrow> int \<Rightarrow> int \<Rightarrow> error + int list" where
  "bytearray_set b i v =
     ebind (py_index b i) (\<lambda>j.
       if is_byte v then Inr (b[j := v])
       else Inl (ValueError ''byte must be in range(0, 256)''))"

text \<open>\<open>b[:len(vs)] = vs\<close> on a bytearray.\<close>

definition bytearray_set_prefix :: "int list \<Rightarrow> int list \<Rightarrow> error + int list" where
  "bytearray_set_prefix b vs =
     (if list_all is_byte vs then Inr (vs @ drop (length vs) b)
      else Inl (ValueError ''byte must be in range(0, 256)''))"

section \<open>The codec object\<close>

definition gf_poly_table :: "(int \<times> int) list" where
  "gf_poly_table =
     [(4, 7), (8, 11), (16, 19), (32, 37), (64, 67), (128, 137), (256, 285),
      (512, 529), (1024, 1033), (2048, 2053), (4096, 4179), (8192, 8219),
      (16384, 17475), (32768, 32771), (65536, 69643)]"

definition gf_poly_lookup :: "int \<Rightarrow> error + int" where
  "gf_poly_lookup q = (case map_of gf_poly_table q of None \<Rightarrow> Inl KeyError | Some p \<Rightarrow> Inr p)"

record codec =
  self_n :: int
  self_k :: int
  self_q :: int
  self_nsym :: int
  gf_exp :: "int list"
  gf_log :: "int list"

text \<open>One round of the first loop of \<open>calc_gf_elements\<close>; the state is \<open>(x, gf_exp, gf_log)\<close>.\<close>

definition gf_table_step ::
  "int \<Rightarrow> int \<Rightarrow> int \<Rightarrow> int \<times> int list \<times> int list \<Rightarrow> error + int \<times> int list \<times> int list" where
  "gf_table_step q poly i st =
     (case st of (x, ex, lg) \<Rightarrow>
        let x = x * 2;
            x = (if x AND q \<noteq> 0 then x XOR poly else x) in
        ebind (py_set ex i x) (\<lambda>ex.
        ebind (py_set lg x i) (\<lambda>lg.
        Inr (x, ex, lg))))"

definition calc_gf_elements :: "int \<Rightarrow> int \<Rightarrow> error + int list \<times> int list" where
  "calc_gf_elements n q =
     (let ex = replicate (nat (q * 2)) (1::int);
          lg = replicate (nat q) (0::int) in
      ebind (gf_poly_lookup q) (\<lambda>poly.
      ebind (for_each (py_range 1 n) (gf_table_step q poly) (1, ex, lg)) (\<lambda>st.
      ebind (for_each (py_range n (q * 2))
               (\<lambda>i ex. ebind (py_get ex (i - n)) (\<lambda>v. py_set ex i v)) (fst (snd st))) (\<lambda>ex.
      Inr (ex, snd (snd st))))))"

text \<open>\<open>RSCodec(n, k)\<close>.\<close>

definition RSCodec :: "int \<Rightarrow> int \<Rightarrow> error + codec" where
  "RSCodec n k =
     ebind (calc_gf_elements n (n + 1)) (\<lambda>tabs.
       Inr \<lparr>self_n = n, self_k = k, self_q = n + 1, self_nsym = n - k,
            gf_exp = fst tabs, gf_log = snd tabs\<rparr>)"

section \<open>Field arithmetic\<close>

definition gf_mul :: "codec \<Rightarrow> int \<Rightarrow> int \<Rightarrow> error + int" where
  "gf_mul c x y =
     (if x = 0 \<or> y = 0 then Inr 0
      else ebind (py_get (gf_log c) x) (\<lambda>lx.
           ebind (py_get (gf_log c) y) (\<lambda>ly.
           py_get (gf_exp c) (lx + ly))))"

definition gf_div :: "codec \<Rightarrow> int \<Rightarrow> int \<Rightarrow> error + int" where
  "gf_div c x y =
     (if y = 0 then Inl ZeroDivisionError
      else if x = 0 then Inr 0
      else ebind (py_get (gf_log c) x) (\<lambda>lx.
           ebind (py_get (gf_log c) y) (\<lambda>ly.
           py_get (gf_exp c) (lx + self_n c - ly))))"

section \<open>Polynomials\<close>

definition gf_poly_scale :: "codec \<Rightarrow> int list \<Rightarrow> int \<Rightarrow> error + int list" where
  "gf_poly_scale c p x = emap (\<lambda>a. gf_mul c a x) p"

definition gf_poly_add :: "int list \<Rightarrow> int list \<Rightarrow> int list" where
  "gf_poly_add p q =
     (let r = replicate (max (length p) (length q)) (0::int);
          r = fold (\<lambda>i r. r[i + length r - length p := p ! i]) [0..<length p] r;
          r = fold (\<lambda>i r. r[i + length r - length q := r ! (i + length r - length q) XOR q ! i])
                [0..<length q] r
      in r)"

definition gf_poly_mul :: "codec \<Rightarrow> int list \<Rightarrow> int list \<Rightarrow> error + int list" where
  "gf_poly_mul c p q =
     for_each [0..<length q] (\<lambda>j r.
       for_each [0..<length p] (\<lambda>i r.
         ebind (gf_mul c (p ! i) (q ! j)) (\<lambda>v. Inr (r[i + j := r ! (i + j) XOR v]))) r)
       (replicate (length p + length q - 1) 0)"

definition gf_poly_eval :: "codec \<Rightarrow> int list \<Rightarrow> int \<Rightarrow> error + int" where
  "gf_poly_eval c p x =
     (case p of [] \<Rightarrow> Inl IndexError
      | p0 # ps \<Rightarrow> for_each ps (\<lambda>pi y. ebind (gf_mul c y x) (\<lambda>v. Inr (v XOR pi))) p0)"

section \<open>Encoder\<close>

definition rs_generator_poly :: "codec \<Rightarrow> int \<Rightarrow> error + int list" where
  "rs_generator_poly c nsym =
     for_each (py_range 1 (nsym + 1))
       (\<lambda>i g. ebind (py_get (gf_exp c) i) (\<lambda>a. gf_poly_mul c g [1, a])) [1]"

text \<open>The body of the inner loop of \<open>rs_encode_msg\<close>: \<open>msg_out[i + j] ^= gf_mul(gen[j], coef)\<close>.\<close>

definition rs_encode_xor :: "codec \<Rightarrow> int list \<Rightarrow> int \<Rightarrow> nat \<Rightarrow> nat \<Rightarrow> int list \<Rightarrow> error + int list" where
  "rs_encode_xor c gen coef i j msg_out =
     ebind (py_get msg_out (int (i + j))) (\<lambda>old.
     ebind (gf_mul c (gen ! j) coef) (\<lambda>v.
     bytearray_set msg_out (int (i + j)) (old XOR v)))"

definition rs_encode_step :: "codec \<Rightarrow> int list \<Rightarrow> nat \<Rightarrow> int list \<Rightarrow> error + int list" where
  "rs_encode_step c gen i msg_out =
     ebind (py_get msg_out (int i)) (\<lambda>coef.
       if coef \<noteq> 0 then for_each [0..<length gen] (rs_encode_xor c gen coef i) msg_out
       else Inr msg_out)"

definition rs_encode_msg :: "codec \<Rightarrow> int list \<Rightarrow> int \<Rightarrow> error + int list" where
  "rs_encode_msg c msg_in nsym =
     (if int (length msg_in) + nsym > self_n c then Inl (ValueError ''message too long'')
      else
        ebind (rs_generator_poly c nsym) (\<lambda>gen.
        ebind (bytearray_new (int (length msg_in) + nsym)) (\<lambda>msg_out.
        ebind (bytearray_set_prefix msg_out msg_in) (\<lambda>msg_out.
        ebind (for_each [0..<length msg_in] (rs_encode_step c gen) msg_out) (\<lambda>msg_out.
        bytearray_set_prefix msg_out msg_in)))))"

section \<open>Decoder\<close>

definition rs_calc_syndromes :: "codec \<Rightarrow> int list \<Rightarrow> int \<Rightarrow> error + int list" where
  "rs_calc_syndromes c msg nsym =
     emap (\<lambda>i. ebind (py_get (gf_exp c) i) (\<lambda>x. gf_poly_eval c msg x)) (py_range 0 nsym)"

text \<open>One round of the correction loop of \<open>rs_correct_errata\<close>, on the list \<open>msg\<close>.\<close>

definition rs_errata_step ::
  "codec \<Rightarrow> int list \<Rightarrow> int list \<Rightarrow> int \<Rightarrow> int list \<Rightarrow> error + int list" where
  "rs_errata_step c p q posi msg =
     ebind (py_get (gf_exp c) (posi + self_q c - int (length msg))) (\<lambda>x.
     ebind (gf_poly_eval c p x) (\<lambda>y.
     ebind (gf_mul c x x) (\<lambda>xx.
     ebind (gf_poly_eval c q xx) (\<lambda>z.
     ebind (py_get msg posi) (\<lambda>old.
     ebind (gf_mul c x z) (\<lambda>xz.
     ebind (gf_div c y xz) (\<lambda>mag.
     py_set msg posi (old XOR mag))))))))"

definition rs_correct_errata :: "codec \<Rightarrow> int list \<Rightarrow> int list \<Rightarrow> int list \<Rightarrow> error + int list" where
  "rs_correct_errata c msg synd pos =
     ebind (for_each pos (\<lambda>posi q.
              ebind (py_get (gf_exp c) (int (length msg) - 1 - posi)) (\<lambda>x.
              gf_poly_mul c q [x, 1])) [1]) (\<lambda>q.
     ebind (gf_poly_mul c (rev (take (length pos) synd)) q) (\<lambda>p.
       let p = drop (length p - length pos) p;
           q = every_second (drop (length q mod 2) q) in
       for_each pos (rs_errata_step c p q) msg))"

text \<open>One round of the Berlekamp-Massey loop; the state is \<open>(err_poly, old_poly)\<close>.\<close>

definition rs_find_errors_delta :: "codec \<Rightarrow> int list \<Rightarrow> int list \<Rightarrow> nat \<Rightarrow> error + int" where
  "rs_find_errors_delta c synd err_poly i =
     ebind (py_get synd (int i)) (\<lambda>delta.
     for_each [1..<length err_poly] (\<lambda>j delta.
       ebind (py_get err_poly (int (length err_poly) - 1 - int j)) (\<lambda>a.
       ebind (py_get synd (int i - int j)) (\<lambda>b.
       ebind (gf_mul c a b) (\<lambda>v. Inr (delta XOR v))))) delta)"

definition rs_find_errors_step ::
  "codec \<Rightarrow> int list \<Rightarrow> nat \<Rightarrow> int list \<times> int list \<Rightarrow> error + int list \<times> int list" where
  "rs_find_errors_step c synd i st =
     (case st of (err_poly, old_poly) \<Rightarrow>
        let old_poly = old_poly @ [0] in
        ebind (rs_find_errors_delta c synd err_poly i) (\<lambda>delta.
          if delta \<noteq> 0 then
            ebind (if length old_poly > length err_poly then
                     ebind (gf_poly_scale c old_poly delta) (\<lambda>new_poly.
                     ebind (gf_div c 1 delta) (\<lambda>inv.
                     ebind (gf_poly_scale c err_poly inv) (\<lambda>old_poly.
                     Inr (new_poly, old_poly))))
                   else Inr (err_poly, old_poly)) (\<lambda>st.
            ebind (gf_poly_scale c (snd st) delta) (\<lambda>sc.
            Inr (gf_poly_add (fst st) sc, snd st)))
          else Inr (err_poly, old_poly)))"

text \<open>The Berlekamp-Massey loop of \<open>rs_find_errors\<close>; it returns \<open>err_poly\<close>.\<close>

definition rs_find_errors_poly :: "codec \<Rightarrow> int list \<Rightarrow> error + int list" where
  "rs_find_errors_poly c synd =
     ebind (for_each [0..<length synd] (rs_find_errors_step c synd) ([1], [1]))
       (\<lambda>st. Inr (fst st))"

text \<open>The root search of \<open>rs_find_errors\<close>.\<close>

definition rs_find_errors_roots :: "codec \<Rightarrow> int list \<Rightarrow> int \<Rightarrow> error + int list" where
  "rs_find_errors_roots c err_poly nmess =
     for_each (py_range 0 nmess) (\<lambda>i err_pos.
       ebind (py_get (gf_exp c) (self_n c - i)) (\<lambda>x.
       ebind (gf_poly_eval c err_poly x) (\<lambda>y.
       Inr (if y = 0 then err_pos @ [nmess - 1 - i] else err_pos)))) []"

definition rs_find_errors :: "codec \<Rightarrow> int list \<Rightarrow> int \<Rightarrow> error + int list option" where
  "rs_find_errors c synd nmess =
     ebind (rs_find_errors_poly c synd) (\<lambda>err_poly.
       let errs = int (length err_poly) - 1 in
       if errs * 2 > int (length synd) then Inl (ReedSolomonError ''Too many errors to correct'')
       else
         ebind (rs_find_errors_roots c err_poly nmess) (\<lambda>err_pos.
           if int (length err_pos) \<noteq> errs then Inr None
           else Inr (Some err_pos)))"

definition rs_forney_syndromes :: "codec \<Rightarrow> int list \<Rightarrow> int list \<Rightarrow> int \<Rightarrow> error + int list" where
  "rs_forney_syndromes c synd pos nmess =
     for_each pos (\<lambda>posi fsynd.
       ebind (py_get (gf_exp c) (nmess - 1 - posi)) (\<lambda>x.
       ebind (for_each [0..<length fsynd - 1] (\<lambda>i fsynd.
                ebind (gf_mul c (fsynd ! i) x) (\<lambda>v.
                Inr (fsynd[i := v XOR fsynd ! (i + 1)]))) fsynd) (\<lambda>fsynd.
       if fsynd = [] then Inl IndexError else Inr (butlast fsynd)))) synd"

text \<open>The erasure scan of \<open>rs_correct_msg\<close>; the state is \<open>(msg_out, erase_pos)\<close>.\<close>

definition rs_find_erasures :: "int list \<Rightarrow> int list \<times> int list" where
  "rs_find_erasures msg_in =
     fold (\<lambda>i (msg_out, erase_pos).
             if msg_out ! i < 0 then (msg_out[i := 0], erase_pos @ [int i])
             else (msg_out, erase_pos))
       [0..<length msg_in] (msg_in, [])"

text \<open>\<open>rs_correct_msg\<close> from the call of \<open>rs_correct_errata\<close> on.\<close>

definition rs_correct_msg_finish ::
  "codec \<Rightarrow> int list \<Rightarrow> int list \<Rightarrow> int list \<Rightarrow> int \<Rightarrow> error + int list" where
  "rs_correct_msg_finish c msg_out synd pos nsym =
     ebind (rs_correct_errata c msg_out synd pos) (\<lambda>msg_out.
     ebind (rs_calc_syndromes c msg_out nsym) (\<lambda>synd.
     ebind (py_max synd) (\<lambda>m.
       if m > 0 then Inl (ReedSolomonError ''Could not correct message'')
       else Inr (py_slice_to msg_out (- nsym)))))"

text \<open>\<open>rs_correct_msg\<close> from the first syndrome computation on.\<close>

definition rs_correct_msg_decode ::
  "codec \<Rightarrow> int list \<Rightarrow> int list \<Rightarrow> int \<Rightarrow> error + int list" where
  "rs_correct_msg_decode c msg_out erase_pos nsym =
     ebind (rs_calc_syndromes c msg_out nsym) (\<lambda>synd.
     ebind (py_max synd) (\<lambda>m.
       if m = 0 then Inr (py_slice_to msg_out (- nsym))
       else
         ebind (rs_forney_syndromes c synd erase_pos (int (length msg_out))) (\<lambda>fsynd.
         ebind (rs_find_errors c fsynd (int (length msg_out))) (\<lambda>err_pos.
           case err_pos of
             None \<Rightarrow> Inl (ReedSolomonError ''Could not locate error'')
           | Some err_pos \<Rightarrow>
               rs_correct_msg_finish c msg_out synd (erase_pos @ err_pos) nsym))))"

definition rs_correct_msg :: "codec \<Rightarrow> int list \<Rightarrow> int \<Rightarrow> error + int list" where
  "rs_correct_msg c msg_in nsym =
     (if int (length msg_in) > self_n c then Inl (ValueError ''message too long'')
      else
        let st = rs_find_erasures msg_in; msg_out = fst st; erase_pos = snd st in
        if int (length erase_pos) > nsym
        then Inl (ReedSolomonError ''Too many erasures to correct'')
        else rs_correct_msg_decode c msg_out erase_pos nsym)"

text \<open>
  The calls \<open>encode\<close> and \<open>decode\<close> make for each chunk: a block is encoded and decoded with the
  codec's own \<open>nsym\<close>.
\<close>

definition encode_block :: "codec \<Rightarrow> int list \<Rightarrow> error + int list" where
  "encode_block c msg = rs_encode_msg c msg (self_nsym c)"

definition decode_block :: "codec \<Rightarrow> int list \<Rightarrow> error + int list" where
  "decode_block c msg = rs_correct_msg c msg (self_nsym c)"

text \<open>\<open>RSCodec(n, k)\<close> followed by one call on the new object.\<close>

definition encode_with :: "int \<Rightarrow> int \<Rightarrow> int list \<Rightarrow> error + int list" where
  "encode_with n k msg = ebind (RSCodec n k) (\<lambda>c. encode_block c msg)"

definition decode_with :: "int \<Rightarrow> int \<Rightarrow> int list \<Rightarrow> error + int list" where
  "decode_with n k msg = ebind (RSCodec n k) (\<lambda>c. decode_block c msg)"

section \<open>Auxiliary notions for the proofs\<close>

text \<open>The exceptions a computation can end in all lie in \<open>E\<close>.\<close>

definition fails_in :: "error set \<Rightarrow> error + 'a \<Rightarrow> bool" where
  "fails_in E m = (case m of Inl e \<Rightarrow> e \<in> E | Inr x \<Rightarrow> True)"

text \<open>The exceptions of the built-in operations and of \<open>gf_div\<close>.\<close>

definition internal_errors :: "error set" where
  "internal_errors =
     {IndexError, ZeroDivisionError, ValueError ''max() arg is an empty sequence'',
      ValueError ''byte must be in range(0, 256)'', ValueError ''negative count''}"

text \<open>\<open>RSCodec()\<close>: the constructor's default arguments are \<open>n = 7\<close>, \<open>k = 3\<close>.\<close>

definition default_codec :: codec where
  "default_codec = projr (RSCodec 7 3)"

text \<open>
  The arguments \<open>(msg_out, synd, erase_pos + err_pos)\<close> with which \<open>rs_correct_msg\<close> calls
  \<open>rs_correct_errata\<close>, and \<open>None\<close> when it returns or raises before that call.
\<close>

definition rs_errata_input ::
  "codec \<Rightarrow> int list \<Rightarrow> int \<Rightarrow> (int list \<times> int list \<times> int list) option" where
  "rs_errata_input c msg_in nsym =
     (if int (length msg_in) > self_n c then None
      else
        let st = rs_find_erasures msg_in; msg_out = fst st; erase_pos = snd st in
        if int (length erase_pos) > nsym then None
        else
          case rs_calc_syndromes c msg_out nsym of Inl e \<Rightarrow> None | Inr synd \<Rightarrow>
          case py_max synd of Inl e \<Rightarrow> None | Inr m \<Rightarrow>
          if m = 0 then None
          else
            case rs_forney_syndromes c synd erase_pos (int (length msg_out)) of
              Inl e \<Rightarrow> None
            | Inr fsynd \<Rightarrow>
                (case rs_find_errors c fsynd (int (length msg_out)) of
                   Inr (Some err_pos) \<Rightarrow> Some (msg_out, synd, erase_pos @ err_pos)
                 | Inr None \<Rightarrow> None
                 | Inl e \<Rightarrow> None))"

text \<open>
  The erasure scan in the specification's words: the number of erased (negative) symbols of a
  block, their positions, and the block with every erased symbol replaced by 0.
\<close>

definition erasure_count :: "int list \<Rightarrow> nat" where
  "erasure_count msg = length (filter (\<lambda>x. x < 0) msg)"

definition erasure_positions :: "int list \<Rightarrow> int list" where
  "erasure_positions msg = map int (filter (\<lambda>i. msg ! i < 0) [0..<length msg])"

definition erasures_cleared :: "int list \<Rightarrow> int list" where
  "erasures_cleared msg = map (\<lambda>x. if x < 0 then 0 else x) msg"

section \<open>The field behind the tables\<close>

text \<open>
  The update of \<open>x\<close> in the first loop of \<open>calc_gf_elements\<close>: multiplication by the generator
  in the field of \<open>q\<close> elements.
\<close>

definition gf_next :: "int \<Rightarrow> int \<Rightarrow> int \<Rightarrow> int" where
  "gf_next q poly x = (let y = x * 2 in if y AND q \<noteq> 0 then y XOR poly else y)"

text \<open>The \<open>t\<close>-th power of the generator.\<close>

definition gf_power :: "int \<Rightarrow> int \<Rightarrow> nat \<Rightarrow> int" where
  "gf_power q poly t = ((gf_next q poly) ^^ t) 1"

text \<open>The polynomial \<open>poly\<close> has degree \<open>m\<close>, where \<open>q = 2 ^ m\<close>.\<close>

definition gf_params :: "nat \<Rightarrow> int \<Rightarrow> bool" where
  "gf_params m poly \<longleftrightarrow> 0 < m \<and> 2 ^ m \<le> poly \<and> poly < 2 ^ Suc m"

text \<open>
  Multiplication in the field by shift and add, and powers of the generator by repeated
  squaring: they make the order of the generator computable for the large fields.
\<close>

function gf_mulx :: "int \<Rightarrow> int \<Rightarrow> int \<Rightarrow> int \<Rightarrow> int" where
  "gf_mulx q poly u v =
     (if v \<le> 0 then 0
      else (if odd v then u else 0) XOR gf_mulx q poly (gf_next q poly u) (v div 2))"
  by pat_completeness auto
termination by (relation "measure (\<lambda>(q, poly, u, v). nat v)") auto

function gf_pow_sq :: "int \<Rightarrow> int \<Rightarrow> int \<Rightarrow> int" where
  "gf_pow_sq q poly k =
     (if k \<le> 0 then 1
      else let h = gf_pow_sq q poly (k div 2); s = gf_mulx q poly h h in
           if odd k then gf_next q poly s else s)"
  by pat_completeness auto
termination by (relation "measure (\<lambda>(q, poly, k). nat k)") auto

declare gf_mulx.simps [simp del] gf_pow_sq.simps [simp del]

text \<open>
  The generator has order \<open>q - 1\<close>: its \<open>(q - 1)\<close>-th power is 1, and no power with a proper
  divisor \<open>d\<close> of \<open>q - 1\<close> as exponent is.  Every proper divisor is at most \<open>s\<close> or is
  \<open>(q - 1) div e\<close> for some \<open>e \<le> s\<close>, when \<open>q - 1 \<le> s * s\<close>.
\<close>

definition gf_order_check :: "int \<Rightarrow> int \<Rightarrow> int \<Rightarrow> bool" where
  "gf_order_check q poly s \<longleftrightarrow>
     gf_pow_sq q poly (q - 1) = 1 \<and>
     list_all (\<lambda>d. \<not> d dvd (q - 1) \<or> d = q - 1 \<or> gf_pow_sq q poly d \<noteq> 1) [1..s] \<and>
     list_all (\<lambda>e. \<not> e dvd (q - 1) \<or> gf_pow_sq q poly ((q - 1) div e) \<noteq> 1) [2..s]"

text \<open>The entries \<open>(q, poly)\<close> of \<open>_gf_poly\<close> as \<open>(m, poly, s)\<close> with \<open>q = 2 ^ m\<close>.\<close>

definition gf_fields :: "(nat \<times> int \<times> int) list" where
  "gf_fields =
     [(2, 7, 2), (3, 11, 3), (4, 19, 4), (5, 37, 6), (6, 67, 8), (7, 137, 12), (8, 285, 16),
      (9, 529, 23), (10, 1033, 32), (11, 2053, 46), (12, 4179, 64), (13, 8219, 91),
      (14, 17475, 128), (15, 32771, 182), (16, 69643, 256)]"

definition gf_field_ok :: "nat \<times> int \<times> int \<Rightarrow> bool" where
  "gf_field_ok f = (case f of (m, poly, s) \<Rightarrow>
     0 < m \<and> 0 \<le> s \<and> 2 ^ m \<le> poly \<and> poly < 2 ^ Suc m \<and> 2 ^ m - 1 \<le> s * s \<and>
     gf_order_check (2 ^ m) poly s)"

definition gf_primitive :: "nat \<Rightarrow> int \<Rightarrow> bool" where
  "gf_primitive m poly \<longleftrightarrow>
     gf_params m poly \<and> gf_power (2 ^ m) poly (2 ^ m - 1) = 1 \<and>
     (\<forall>k. 0 < k \<and> k < 2 ^ m - 1 \<longrightarrow> gf_power (2 ^ m) poly k \<noteq> 1)"

text \<open>What \<open>calc_gf_elements\<close> builds: the powers of the generator and their logarithms.\<close>

definition gf_tables :: "nat \<Rightarrow> int \<Rightarrow> int list \<Rightarrow> int list \<Rightarrow> bool" where
  "gf_tables m poly ex lg \<longleftrightarrow>
     length ex = 2 * 2 ^ m \<and> length lg = 2 ^ m \<and>
     (\<forall>t < 2 * 2 ^ m. ex ! t = gf_power (2 ^ m) poly (t mod (2 ^ m - 1))) \<and>
     (\<forall>t < 2 ^ m - 1. lg ! nat (gf_power (2 ^ m) poly t) = int t)"

definition gf_codec :: "nat \<Rightarrow> int \<Rightarrow> codec \<Rightarrow> bool" where
  "gf_codec m poly c \<longleftrightarrow>
     gf_primitive m poly \<and> self_q c = 2 ^ m \<and> self_n c = 2 ^ m - 1 \<and>
     gf_tables m poly (gf_exp c) (gf_log c)"

text \<open>A sequence of field elements: symbols in \<open>[0, q)\<close>.\<close>

definition gf_elems :: "codec \<Rightarrow> int list \<Rightarrow> bool" where
  "gf_elems c p \<longleftrightarrow> (\<forall>x \<in> set p. 0 \<le> x \<and> x < self_q c)"

section \<open>Which exceptions each operation can raise\<close>

lemma fails_in_Inr [simp]: "fails_in E (Inr x)" by (simp add: fails_in_def)
lemma fails_in_Inl [simp]: "fails_in E (Inl e) \<longleftrightarrow> e \<in> E" by (simp add: fails_in_def)

lemma fails_in_mono: "fails_in E m \<Longrightarrow> E \<subseteq> E' \<Longrightarrow> fails_in E' m"
  by (cases m) auto

lemma fails_in_ebind: "fails_in E m \<Longrightarrow> (\<And>x. m = Inr x \<Longrightarrow> fails_in E (f x)) \<Longrightarrow> fails_in E (ebind m f)"
  by (cases m) auto

lemma fails_in_for_each: "(\<And>x s. fails_in E (body x s)) \<Longrightarrow> fails_in E (for_each xs body s)"
  by (induction xs arbitrary: s) (auto intro: fails_in_ebind)

lemma fails_in_emap: "(\<And>x. fails_in E (f x)) \<Longrightarrow> fails_in E (emap f xs)"
  by (induction xs) (auto intro!: fails_in_ebind)

lemma fails_in_D: "fails_in E m \<Longrightarrow> e \<notin> E \<Longrightarrow> m \<noteq> Inl e"
  by (cases m) auto

lemma fails_in_py_index: "IndexError \<in> E \<Longrightarrow> fails_in E (py_index xs i)"
  by (simp add: py_index_def)
lemma fails_in_py_get: "IndexError \<in> E \<Longrightarrow> fails_in E (py_get xs i)"
  by (auto simp: py_get_def intro!: fails_in_ebind fails_in_py_index)
lemma fails_in_py_set: "IndexError \<in> E \<Longrightarrow> fails_in E (py_set xs i v)"
  by (auto simp: py_set_def intro!: fails_in_ebind fails_in_py_index)

lemma fails_in_gf_mul: "IndexError \<in> E \<Longrightarrow> fails_in E (gf_mul c x y)"
  by (auto simp: gf_mul_def intro!: fails_in_ebind fails_in_py_get)

lemma fails_in_gf_div: "IndexError \<in> E \<Longrightarrow> ZeroDivisionError \<in> E \<Longrightarrow> fails_in E (gf_div c x y)"
  by (auto simp: gf_div_def intro!: fails_in_ebind fails_in_py_get)

lemma fails_in_gf_poly_scale: "IndexError \<in> E \<Longrightarrow> fails_in E (gf_poly_scale c p x)"
  by (auto simp: gf_poly_scale_def intro!: fails_in_emap fails_in_gf_mul)

lemma fails_in_gf_poly_mul: "IndexError \<in> E \<Longrightarrow> fails_in E (gf_poly_mul c p q)"
  by (auto simp: gf_poly_mul_def intro!: fails_in_for_each fails_in_ebind fails_in_gf_mul)

lemma fails_in_gf_poly_eval: "IndexError \<in> E \<Longrightarrow> fails_in E (gf_poly_eval c p x)"
  by (auto simp: gf_poly_eval_def split: list.splits intro!: fails_in_for_each fails_in_ebind fails_in_gf_mul)

lemma fails_in_rs_generator_poly: "IndexError \<in> E \<Longrightarrow> fails_in E (rs_generator_poly c nsym)"
  by (auto simp: rs_generator_poly_def intro!: fails_in_for_each fails_in_ebind fails_in_py_get fails_in_gf_poly_mul)

lemma internal_IndexError [simp]: "IndexError \<in> internal_errors"
  and internal_ZeroDivisionError [simp]: "ZeroDivisionError \<in> internal_errors"
  and internal_max [simp]: "ValueError ''max() arg is an empty sequence'' \<in> internal_errors"
  and internal_byte [simp]: "ValueError ''byte must be in range(0, 256)'' \<in> internal_errors"
  and internal_count [simp]: "ValueError ''negative count'' \<in> internal_errors"
  and internal_too_long [simp]: "ValueError ''message too long'' \<notin> internal_errors"
  and internal_rs [simp]: "ReedSolomonError s \<notin> internal_errors"
  by (simp_all add: internal_errors_def)

lemma fails_in_bytearray_set: "fails_in internal_errors (bytearray_set b i v)"
  by (auto simp: bytearray_set_def intro!: fails_in_ebind fails_in_py_index)

lemma fails_in_bytearray_set_prefix: "fails_in internal_errors (bytearray_set_prefix b vs)"
  by (auto simp: bytearray_set_prefix_def)

lemma fails_in_bytearray_new: "fails_in internal_errors (bytearray_new k)"
  by (auto simp: bytearray_new_def)

lemma fails_in_rs_encode_xor: "fails_in internal_errors (rs_encode_xor c gen coef i j b)"
  by (auto simp: rs_encode_xor_def intro!: fails_in_ebind fails_in_py_get fails_in_gf_mul fails_in_bytearray_set)

lemma fails_in_rs_encode_step: "fails_in internal_errors (rs_encode_step c gen i b)"
  by (auto simp: rs_encode_step_def intro!: fails_in_ebind fails_in_py_get fails_in_for_each fails_in_rs_encode_xor)

lemma rs_encode_msg_too_long:
  "rs_encode_msg c msg nsym = Inl (ValueError ''message too long'') \<longleftrightarrow> int (length msg) + nsym > self_n c"
proof (cases "int (length msg) + nsym > self_n c")
  case True
  then show ?thesis by (simp add: rs_encode_msg_def)
next
  case False
  have "fails_in internal_errors (rs_encode_msg c msg nsym)"
    using False
    by (auto simp: rs_encode_msg_def intro!: fails_in_ebind fails_in_rs_generator_poly
        fails_in_bytearray_new fails_in_bytearray_set_prefix fails_in_for_each fails_in_rs_encode_step)
  then have "rs_encode_msg c msg nsym \<noteq> Inl (ValueError ''message too long'')"
    by (rule fails_in_D) simp
  with False show ?thesis by simp
qed

lemma fails_in_rs_calc_syndromes: "IndexError \<in> E \<Longrightarrow> fails_in E (rs_calc_syndromes c msg nsym)"
  by (auto simp: rs_calc_syndromes_def intro!: fails_in_emap fails_in_ebind fails_in_py_get fails_in_gf_poly_eval)

lemma fails_in_py_max: "fails_in internal_errors (py_max xs)"
  by (auto simp: py_max_def split: list.splits)

lemma fails_in_rs_forney_syndromes: "IndexError \<in> E \<Longrightarrow> fails_in E (rs_forney_syndromes c synd pos nmess)"
  by (auto simp: rs_forney_syndromes_def intro!: fails_in_for_each fails_in_ebind fails_in_py_get fails_in_gf_mul)

lemma fails_in_rs_find_errors_delta: "IndexError \<in> E \<Longrightarrow> fails_in E (rs_find_errors_delta c synd ep i)"
  by (auto simp: rs_find_errors_delta_def intro!: fails_in_for_each fails_in_ebind fails_in_py_get fails_in_gf_mul)

lemma fails_in_rs_find_errors_step: "fails_in internal_errors (rs_find_errors_step c synd i st)"
  by (auto simp: rs_find_errors_step_def Let_def split: prod.splits
      intro!: fails_in_ebind fails_in_rs_find_errors_delta fails_in_gf_poly_scale fails_in_gf_div)

lemma fails_in_rs_find_errors_poly: "fails_in internal_errors (rs_find_errors_poly c synd)"
  by (auto simp: rs_find_errors_poly_def intro!: fails_in_ebind fails_in_for_each fails_in_rs_find_errors_step)

lemma fails_in_rs_find_errors_roots: "IndexError \<in> E \<Longrightarrow> fails_in E (rs_find_errors_roots c ep nmess)"
  by (auto simp: rs_find_errors_roots_def intro!: fails_in_for_each fails_in_ebind fails_in_py_get fails_in_gf_poly_eval)

lemma fails_in_rs_find_errors:
  "fails_in (insert (ReedSolomonError ''Too many errors to correct'') internal_errors) (rs_find_errors c synd nmess)"
  by (auto simp: rs_find_errors_def Let_def
      intro!: fails_in_ebind fails_in_rs_find_errors_roots fails_in_mono[OF fails_in_rs_find_errors_poly])

lemma fails_in_rs_errata_step: "fails_in internal_errors (rs_errata_step c p q posi msg)"
  by (auto simp: rs_errata_step_def intro!: fails_in_ebind fails_in_py_get fails_in_py_set
      fails_in_gf_poly_eval fails_in_gf_mul fails_in_gf_div)

lemma fails_in_rs_correct_errata: "fails_in internal_errors (rs_correct_errata c msg synd pos)"
  by (auto simp: rs_correct_errata_def Let_def intro!: fails_in_ebind fails_in_for_each fails_in_py_get
      fails_in_gf_poly_mul fails_in_rs_errata_step)

lemma fails_in_rs_correct_msg_finish:
  "fails_in (insert (ReedSolomonError ''Could not correct message'') internal_errors)
     (rs_correct_msg_finish c msg synd pos nsym)"
  by (auto simp: rs_correct_msg_finish_def
      intro!: fails_in_ebind fails_in_rs_calc_syndromes fails_in_mono[OF fails_in_py_max]
        fails_in_mono[OF fails_in_rs_correct_errata])

lemma fails_in_rs_correct_msg_decode:
  "fails_in ({ReedSolomonError ''Could not correct message'', ReedSolomonError ''Could not locate error'',
              ReedSolomonError ''Too many errors to correct''} \<union> internal_errors)
     (rs_correct_msg_decode c msg pos nsym)"
  by (auto simp: rs_correct_msg_decode_def split: option.splits
      intro!: fails_in_ebind fails_in_rs_calc_syndromes fails_in_mono[OF fails_in_py_max]
        fails_in_rs_forney_syndromes fails_in_mono[OF fails_in_rs_find_errors]
        fails_in_mono[OF fails_in_rs_correct_msg_finish])

lemma rs_correct_msg_too_long:
  "rs_correct_msg c msg nsym = Inl (ValueError ''message too long'') \<longleftrightarrow> int (length msg) > self_n c"
proof (cases "int (length msg) > self_n c")
  case True
  then show ?thesis by (simp add: rs_correct_msg_def)
next
  case False
  have "rs_correct_msg_decode c m p nsym \<noteq> Inl (ValueError ''message too long'')" for m p
    by (rule fails_in_D[OF fails_in_rs_correct_msg_decode]) simp
  with False show ?thesis by (simp add: rs_correct_msg_def Let_def)
qed

section \<open>The default codec\<close>

lemma default_codec_eq: "RSCodec 7 3 = Inr default_codec"
  unfolding default_codec_def by code_simp

lemma default_codec_val:
  "default_codec = \<lparr>self_n = 7, self_k = 3, self_q = 8, self_nsym = 4,
        gf_exp = [1, 2, 4, 3, 6, 7, 5, 1, 2, 4, 3, 6, 7, 5, 1, 2],
        gf_log = [0, 0, 1, 3, 2, 6, 4, 5]\<rparr>"
  unfolding default_codec_def by code_simp

section \<open>Round trip and error tolerance\<close>

text \<open>
  Claim C1 (round trip): decoding the encoding of a message returns the message.  The code
  does not do this.  \<open>rs_generator_poly\<close> builds the generator with the roots
  \<open>gf_exp[1], ..., gf_exp[nsym]\<close>, while \<open>rs_calc_syndromes\<close> evaluates the block at
  \<open>gf_exp[0], ..., gf_exp[nsym - 1]\<close>, so the first syndrome of an encoded block is the XOR of
  its symbols and is nonzero for most messages.  With the default codec the message \<open>[1]\<close> is
  encoded as \<open>[1, 3, 1, 2, 3]\<close>, and decoding that block raises
  \<open>ReedSolomonError("Could not locate error")\<close>.
\<close>

theorem roundtrip_fails:
  "encode_block default_codec [1] = Inr [1, 3, 1, 2, 3] \<and>
   decode_block default_codec [1, 3, 1, 2, 3] = Inl (ReedSolomonError ''Could not locate error'')"
  unfolding default_codec_def by code_simp

text \<open>
  Claim C2 (combined bound): a block with \<open>e\<close> changed symbols and \<open>f\<close> erased ones decodes to
  the message when \<open>2 * e + f \<le> nsym\<close>.  The same mismatch of roots breaks it: with the default
  codec (\<open>nsym = 4\<close>) the message \<open>[1, 2, 3]\<close> is encoded as \<open>[1, 2, 3, 0, 0, 1, 3]\<close>; changing the
  first symbol to 5 (\<open>e = 1\<close>, \<open>f = 0\<close>) gives a block whose decoding raises
  \<open>ReedSolomonError("Could not locate error")\<close>.
\<close>

theorem one_error_not_corrected:
  "encode_block default_codec [1, 2, 3] = Inr [1, 2, 3, 0, 0, 1, 3] \<and>
   decode_block default_codec [5, 2, 3, 0, 0, 1, 3] = Inl (ReedSolomonError ''Could not locate error'')"
  unfolding default_codec_def by code_simp

section \<open>The length guards\<close>

text \<open>
  Claim C7: \<open>rs_encode_msg\<close> raises \<open>ValueError("message too long")\<close> exactly when
  \<open>len(msg_in) + nsym > n\<close>, and \<open>rs_correct_msg\<close> raises it exactly when \<open>len(msg_in) > n\<close>.
  The statement holds for every codec object, every block and every \<open>nsym\<close>, whatever the
  tables and the symbols are: the guard is the first statement of both functions, so no other
  exception can come before it, and nothing later raises this exception.
\<close>

theorem input_too_long:
  "(rs_encode_msg c msg nsym = Inl (ValueError ''message too long'')
      \<longleftrightarrow> int (length msg) + nsym > self_n c) \<and>
   (rs_correct_msg c block nsym = Inl (ValueError ''message too long'')
      \<longleftrightarrow> int (length block) > self_n c)"
  by (simp add: rs_encode_msg_too_long rs_correct_msg_too_long)

theorem input_too_long_witness:
  "rs_encode_msg default_codec [1, 2, 3, 4] 4 = Inl (ValueError ''message too long'') \<and>
   rs_correct_msg default_codec [9, 9, 9, 9, 9, 9, 9, 9] 4 = Inl (ValueError ''message too long'')"
  using input_too_long [of default_codec "[1, 2, 3, 4]" 4 "[9, 9, 9, 9, 9, 9, 9, 9]"]
  by (simp add: default_codec_val)

section \<open>The erasure scan\<close>

lemma rs_find_erasures_fold:
  "k \<le> length msg \<Longrightarrow>
   fold (\<lambda>i (msg_out, erase_pos).
             if msg_out ! i < 0 then (msg_out[i := 0], erase_pos @ [int i])
             else (msg_out, erase_pos)) [0..<k] (msg, []) =
   (map (\<lambda>x. if x < 0 then 0 else x) (take k msg) @ drop k msg,
    map int (filter (\<lambda>i. msg ! i < 0) [0..<k]))"
proof (induction k)
  case 0
  then show ?case by simp
next
  case (Suc k)
  then have k: "k < length msg" by simp
  have nth: "(map (\<lambda>x. if x < 0 then 0 else x) (take k msg) @ drop k msg) ! k = msg ! k"
    using k by (simp add: nth_append)
  have upd: "(map (\<lambda>x. if x < 0 then 0 else x) (take k msg) @ drop k msg)[k := v]
       = map (\<lambda>x. if x < 0 then 0 else x) (take k msg) @ v # drop (Suc k) msg" for v
    using k by (simp add: list_update_append Cons_nth_drop_Suc[symmetric] )
  show ?case
    using Suc.IH k Suc.prems
    by (simp add: nth upd take_Suc_conv_app_nth Cons_nth_drop_Suc)
qed

lemma rs_find_erasures_eq:
  "rs_find_erasures msg = (erasures_cleared msg, erasure_positions msg)"
  unfolding rs_find_erasures_def erasures_cleared_def erasure_positions_def
  using rs_find_erasures_fold[of "length msg" msg] by simp

lemma length_filter_nth: "length (filter (\<lambda>i. P (xs ! i)) [0..<length xs]) = length (filter P xs)"
proof -
  have "filter P xs = filter P (map ((!) xs) [0..<length xs])" by (simp add: map_nth)
  also have "\<dots> = map ((!) xs) (filter (P \<circ> (!) xs) [0..<length xs])" by (simp add: filter_map)
  finally show ?thesis by (simp add: comp_def)
qed

lemma length_erasure_positions: "length (erasure_positions msg) = erasure_count msg"
  unfolding erasure_positions_def erasure_count_def
  using length_filter_nth[of "\<lambda>x. x < 0" msg] by simp

lemma rs_correct_msg_decode_not_erasures:
  "rs_correct_msg_decode c m p nsym \<noteq> Inl (ReedSolomonError ''Too many erasures to correct'')"
  by (rule fails_in_D[OF fails_in_rs_correct_msg_decode]) simp

lemma rs_correct_msg_scan:
  "int (length msg) \<le> self_n c \<Longrightarrow>
   rs_correct_msg c msg nsym =
     (if int (erasure_count msg) > nsym
      then Inl (ReedSolomonError ''Too many erasures to correct'')
      else rs_correct_msg_decode c (erasures_cleared msg) (erasure_positions msg) nsym)"
  by (simp add: rs_correct_msg_def rs_find_erasures_eq length_erasure_positions Let_def)

text \<open>
  Claim C6: the decoder first records the index of every negative symbol and replaces the
  symbol by 0, before any syndrome is computed, and it raises
  \<open>ReedSolomonError("Too many erasures to correct")\<close> exactly when there are more than \<open>nsym\<close>
  such positions.  As stated, for every received block, this fails: the length guard comes
  first, so a block longer than \<open>n\<close> raises \<open>ValueError("message too long")\<close> however many
  erased symbols it has.
\<close>

theorem erasure_scan_counterexample:
  "int (erasure_count [-1, -1, -1, -1, -1, -1, -1, -1]) > self_nsym default_codec \<and>
   decode_block default_codec [-1, -1, -1, -1, -1, -1, -1, -1] = Inl (ValueError ''message too long'')"
  unfolding default_codec_def by code_simp

text \<open>
  Claim C6 as amended: for every received block of length at most \<open>n\<close>, the scan returns the
  block with every negative symbol replaced by 0 together with the ascending list of the
  positions of the negative symbols; the decoder raises
  \<open>ReedSolomonError("Too many erasures to correct")\<close> exactly when more than \<open>nsym\<close> symbols
  are negative, and otherwise the rest of the decoding, which starts with the syndrome
  computation, runs on the cleared block and the recorded positions.
\<close>

theorem erasure_scan:
  assumes "int (length msg) \<le> self_n c"
  shows "rs_find_erasures msg = (erasures_cleared msg, erasure_positions msg)
       \<and> (rs_correct_msg c msg nsym = Inl (ReedSolomonError ''Too many erasures to correct'')
            \<longleftrightarrow> int (erasure_count msg) > nsym)
       \<and> (\<not> int (erasure_count msg) > nsym \<longrightarrow>
            rs_correct_msg c msg nsym =
              rs_correct_msg_decode c (erasures_cleared msg) (erasure_positions msg) nsym)"
  using rs_correct_msg_scan[OF assms, of nsym] rs_correct_msg_decode_not_erasures[of c _ _ nsym]
  by (simp add: rs_find_erasures_eq)

theorem erasure_scan_witness:
  "rs_find_erasures [1, -1, 3, -5, 0] = ([1, 0, 3, 0, 0], [1, 3]) \<and>
   rs_correct_msg default_codec [1, -1, 3, -5, 0] 1 = Inl (ReedSolomonError ''Too many erasures to correct'') \<and>
   rs_correct_msg default_codec [1, -1, 3, -5, 0] 2 =
     rs_correct_msg_decode default_codec [1, 0, 3, 0, 0] [1, 3] 2"
proof -
  have len: "int (length [1, -1, 3, -5, 0 :: int]) \<le> self_n default_codec"
    by (simp add: default_codec_val)
  have c: "erasure_count [1, -1, 3, -5, 0] = 2" by (simp add: erasure_count_def)
  have p: "erasure_positions [1, -1, 3, -5, 0] = [1, 3]"
    by (simp add: erasure_positions_def upt_rec)
  have m: "erasures_cleared [1, -1, 3, -5, 0] = [1, 0, 3, 0, 0]" by (simp add: erasures_cleared_def)
  show ?thesis
    using erasure_scan [OF len, of 1] erasure_scan [OF len, of 2]
    by (simp add: c p m)
qed

section \<open>A codec without redundancy\<close>

text \<open>
  Claim C9: with \<open>nsym = 0\<close>, decoding a non-empty block that has no erased symbol never returns
  the block's message.  For a block within the capacity \<open>n\<close> the syndrome list is empty and
  \<open>max(synd)\<close> raises the built-in \<open>ValueError\<close> of \<open>max\<close> on an empty sequence, which is none
  of the codec's own exceptions; a longer block is stopped by the length guard.
\<close>

theorem nsym_zero_decode:
  assumes "self_nsym c = 0" and "msg \<noteq> []" and "\<forall>x\<in>set msg. 0 \<le> x"
  shows "decode_block c msg \<noteq> Inr msg
       \<and> (int (length msg) \<le> self_n c \<longrightarrow>
            rs_calc_syndromes c (fst (rs_find_erasures msg)) (self_nsym c) = Inr []
          \<and> decode_block c msg = Inl (ValueError ''max() arg is an empty sequence''))"
proof -
  have nofilter: "erasure_count msg = 0"
    using assms(3) unfolding erasure_count_def by (induction msg) auto
  have synd: "rs_calc_syndromes c m 0 = Inr []" for m
    by (simp add: rs_calc_syndromes_def py_range_def)
  have dec: "rs_correct_msg_decode c m p 0 = Inl (ValueError ''max() arg is an empty sequence'')" for m p
    by (simp add: rs_correct_msg_decode_def synd py_max_def)
  show ?thesis
  proof (cases "int (length msg) \<le> self_n c")
    case True
    then show ?thesis
      using rs_correct_msg_scan[OF True, of 0] assms(1)
      by (simp add: decode_block_def nofilter dec synd)
  next
    case False
    then show ?thesis by (simp add: decode_block_def rs_correct_msg_def)
  qed
qed

theorem nsym_zero_decode_witness:
  "self_nsym (projr (RSCodec 7 7)) = 0 \<and>
   decode_block (projr (RSCodec 7 7)) [1, 2, 3] = Inl (ValueError ''max() arg is an empty sequence'')"
proof -
  have n: "self_nsym (projr (RSCodec 7 7)) = 0" by code_simp
  have l: "int (length [1, 2, 3 :: int]) \<le> self_n (projr (RSCodec 7 7))" by code_simp
  have s: "\<forall>x\<in>set [1, 2, 3 :: int]. 0 \<le> x" by simp
  show ?thesis
    using nsym_zero_decode [OF n _ s] l n by simp
qed
section \<open>Bits of the field elements\<close>

lemma gf_next_bit:
  assumes "0 < m"
  shows "gf_next (2 ^ m) poly x = (x * 2) XOR (if bit x (m - 1) then poly else 0)"
proof -
  have "(x * 2) AND 2 ^ m = 0 \<longleftrightarrow> \<not> bit (2 * x) m"
    by (simp add: and_exp_eq_0_iff_not_bit mult.commute)
  also have "bit (2 * x) m \<longleftrightarrow> bit x (m - 1)"
    using assms by (simp add: bit_double_iff)
  finally show ?thesis by (simp add: gf_next_def Let_def)
qed

lemma small_no_bit:
  assumes "0 \<le> (a::int)" "a < 2 ^ n" "n \<le> k"
  shows "\<not> bit a k"
proof -
  have "take_bit n a = a" using assms(1,2) by (simp add: take_bit_int_eq_self)
  then have "bit a k = bit (take_bit n a) k" by simp
  also have "\<dots> = (k < n \<and> bit a k)" by (simp add: bit_take_bit_iff)
  finally show ?thesis using assms(3) by simp
qed

lemma top_bit:
  assumes "2 ^ m \<le> (a::int)" "a < 2 ^ Suc m"
  shows "bit a m"
proof -
  have "a div 2 ^ m = 1"
    using assms by (intro div_pos_pos_trivial[THEN trans] int_div_pos_eq[of a "2^m" 1 "a - 2^m"]) auto
  then show ?thesis by (simp add: bit_iff_odd)
qed

lemma no_bit_small:
  assumes "0 \<le> (a::int)" "\<And>k. n \<le> k \<Longrightarrow> \<not> bit a k"
  shows "a < 2 ^ n"
proof -
  have "bit (take_bit n a) k = bit a k" for k
    using assms(2)[of k] by (cases "k < n") (auto simp: bit_take_bit_iff)
  then have "take_bit n a = a"
    by (intro bit_eqI) simp
  then show ?thesis by (simp add: take_bit_int_eq_self_iff)
qed

lemma xor_in_range:
  "0 \<le> (a::int) \<Longrightarrow> a < 2 ^ n \<Longrightarrow> 0 \<le> b \<Longrightarrow> b < 2 ^ n \<Longrightarrow> 0 \<le> a XOR b \<and> a XOR b < 2 ^ n"
  by (simp add: XOR_upper)

lemma xor_top_cancel:
  assumes "2 ^ m \<le> (a::int)" "a < 2 ^ Suc m" "2 ^ m \<le> b" "b < 2 ^ Suc m"
  shows "0 \<le> a XOR b \<and> a XOR b < 2 ^ m"
proof
  have p: "(0::int) \<le> 2 ^ m" by simp
  have a0: "0 \<le> a" and b0: "0 \<le> b" using assms(1,3) p by linarith+
  show nonneg: "0 \<le> a XOR b" using a0 b0 by simp
  show "a XOR b < 2 ^ m"
  proof (rule no_bit_small[OF nonneg])
    fix k assume k: "m \<le> k"
    show "\<not> bit (a XOR b) k"
    proof (cases "k = m")
      case True
      then show ?thesis using top_bit[OF assms(1,2)] top_bit[OF assms(3,4)] by (simp add: bit_xor_iff)
    next
      case False
      then have "Suc m \<le> k" using k by simp
      then show ?thesis
        using small_no_bit[OF a0 assms(2)] small_no_bit[OF b0 assms(4)] by (simp add: bit_xor_iff)
    qed
  qed
qed

lemma gf_next_linear:
  assumes "0 < m"
  shows "gf_next (2 ^ m) poly (x XOR y) = gf_next (2 ^ m) poly x XOR gf_next (2 ^ m) poly y"
proof -
  have d: "(x XOR y) * 2 = x * 2 XOR y * 2"
    using push_bit_xor[of 1 x y] by (simp add: push_bit_eq_mult)
  show ?thesis
    unfolding gf_next_bit[OF assms] d
    by (simp add: bit_xor_iff ac_simps)
qed

lemma gf_next_zero [simp]: "gf_next q poly 0 = 0"
  by (simp add: gf_next_def)

lemma gf_next_range:
  assumes m: "0 < m" and poly: "2 ^ m \<le> poly" "poly < 2 ^ Suc m" and x: "0 \<le> x" "x < 2 ^ m"
  shows "0 \<le> gf_next (2 ^ m) poly x \<and> gf_next (2 ^ m) poly x < 2 ^ m"
proof (cases "bit x (m - 1)")
  case True
  have "2 ^ (m - 1) \<le> x"
  proof (rule ccontr)
    assume "\<not> 2 ^ (m - 1) \<le> x"
    then have "x < 2 ^ (m - 1)" by simp
    from small_no_bit[OF x(1) this, of "m - 1"] True show False by simp
  qed
  then have "2 * 2 ^ (m - 1) \<le> x * 2" by simp
  moreover have e: "(2::int) * 2 ^ (m - 1) = 2 ^ m" using m by (cases m) auto
  ultimately have lo: "2 ^ m \<le> x * 2" by simp
  have hi: "x * 2 < 2 ^ Suc m" using x(2) by simp
  show ?thesis
    using xor_top_cancel[OF lo hi poly] True by (simp add: gf_next_bit[OF m])
next
  case False
  have "x < 2 ^ (m - 1)"
  proof (rule no_bit_small[OF x(1)])
    fix k assume k: "m - 1 \<le> k"
    show "\<not> bit x k"
    proof (cases "k = m - 1")
      case True then show ?thesis using False by simp
    next
      case False
      then have "m \<le> k" using k by simp
      then show ?thesis using small_no_bit[OF x] by simp
    qed
  qed
  then have "x * 2 < 2 * 2 ^ (m - 1)" by simp
  moreover have e: "(2::int) * 2 ^ (m - 1) = 2 ^ m" using m by (cases m) auto
  ultimately have "x * 2 < 2 ^ m" by simp
  then show ?thesis using False x(1) by (simp add: gf_next_bit[OF m])
qed


section \<open>Powers of the generator\<close>

lemma funpow_gf_next_zero [simp]: "((gf_next q poly) ^^ t) 0 = 0"
  by (induction t) simp_all

lemma funpow_gf_next_linear:
  "0 < m \<Longrightarrow> ((gf_next (2 ^ m) poly) ^^ t) (x XOR y) =
     ((gf_next (2 ^ m) poly) ^^ t) x XOR ((gf_next (2 ^ m) poly) ^^ t) y"
  by (induction t) (simp_all add: gf_next_linear)

lemma funpow_gf_next_range:
  assumes "gf_params m poly" "0 \<le> x" "x < 2 ^ m"
  shows "0 \<le> ((gf_next (2 ^ m) poly) ^^ t) x \<and> ((gf_next (2 ^ m) poly) ^^ t) x < 2 ^ m"
  using assms by (induction t) (auto simp: gf_params_def gf_next_range)

lemma gf_power_range:
  assumes "gf_params m poly"
  shows "0 \<le> gf_power (2 ^ m) poly t \<and> gf_power (2 ^ m) poly t < 2 ^ m"
  unfolding gf_power_def using assms
  by (intro funpow_gf_next_range) (auto simp: gf_params_def)



lemma split_low_bit: "(v::int) = (v mod 2) XOR (v div 2) * 2"
  by (metis bit.conj_zero_left disjunctive_add_eq_xor mod_mult_div_eq
    mod_mult_self1_is_0 mult.commute not_mod_2_eq_1_eq_0 one_and_eq)

lemma gf_mulx_power:
  assumes p: "gf_params m poly"
  shows "0 \<le> v \<Longrightarrow> v < 2 ^ m \<Longrightarrow>
         gf_mulx (2 ^ m) poly (((gf_next (2 ^ m) poly) ^^ a) 1) v = ((gf_next (2 ^ m) poly) ^^ a) v"
proof (induction "nat v" arbitrary: v a rule: less_induct)
  case less
  let ?f = "gf_next (2 ^ m) poly"
  have m: "0 < m" using p by (simp add: gf_params_def)
  show ?case
  proof (cases "v = 0")
    case True
    then show ?thesis by (simp add: gf_mulx.simps)
  next
    case False
    then have pos: "0 < v" using less.prems by simp
    have e: "(2::int) * 2 ^ (m - 1) = 2 ^ m" using m by (cases m) auto
    have h0: "0 \<le> v div 2" using pos by simp
    have h1: "v div 2 < 2 ^ (m - 1)" using less.prems(2) e by linarith
    have "(0::int) < 2 ^ (m - 1)" by simp
    then have h2: "v div 2 < 2 ^ m" using h1 e by linarith
    have "nat (v div 2) < nat v" using pos by linarith
    from less.hyps[OF this h0 h2, of "Suc a"]
    have ih: "gf_mulx (2 ^ m) poly (?f ((?f ^^ a) 1)) (v div 2) = (?f ^^ a) (?f (v div 2))"
      by (simp add: funpow_swap1)
    have nb: "\<not> bit (v div 2) (m - 1)" using small_no_bit[OF h0 h1] by simp
    have fh: "?f (v div 2) = (v div 2) * 2" using nb by (simp add: gf_next_bit[OF m])
    have low: "(if odd v then (?f ^^ a) 1 else 0) = (?f ^^ a) (v mod 2)"
      by (cases "odd v") (simp_all add: odd_iff_mod_2_eq_one)
    have "gf_mulx (2 ^ m) poly ((?f ^^ a) 1) v =
            (if odd v then (?f ^^ a) 1 else 0) XOR gf_mulx (2 ^ m) poly (?f ((?f ^^ a) 1)) (v div 2)"
      using pos by (subst gf_mulx.simps) simp
    also have "\<dots> = (?f ^^ a) (v mod 2) XOR (?f ^^ a) ((v div 2) * 2)"
      by (simp only: ih fh low)
    also have "\<dots> = (?f ^^ a) ((v mod 2) XOR (v div 2) * 2)"
      by (simp add: funpow_gf_next_linear[OF m])
    also have "\<dots> = (?f ^^ a) v" using split_low_bit[of v] by simp
    finally show ?thesis .
  qed
qed

lemma gf_pow_sq_power:
  assumes p: "gf_params m poly"
  shows "gf_pow_sq (2 ^ m) poly k = gf_power (2 ^ m) poly (nat k)"
proof (induction "nat k" arbitrary: k rule: less_induct)
  case less
  let ?f = "gf_next (2 ^ m) poly"
  show ?case
  proof (cases "k \<le> 0")
    case True
    then show ?thesis by (simp add: gf_pow_sq.simps gf_power_def)
  next
    case False
    then have pos: "0 < k" by simp
    define j where "j = nat (k div 2)"
    have "nat (k div 2) < nat k" using pos by linarith
    from less.hyps[OF this] have h: "gf_pow_sq (2 ^ m) poly (k div 2) = (?f ^^ j) 1"
      by (simp add: gf_power_def j_def)
    have r: "0 \<le> (?f ^^ j) 1 \<and> (?f ^^ j) 1 < 2 ^ m"
      using gf_power_range[OF p, of j] by (simp add: gf_power_def)
    have s: "gf_mulx (2 ^ m) poly ((?f ^^ j) 1) ((?f ^^ j) 1) = (?f ^^ (j + j)) 1"
      using gf_mulx_power[OF p, of "(?f ^^ j) 1" j] r by (simp add: funpow_add)
    have nk: "nat k = (if odd k then Suc (j + j) else j + j)"
      using pos unfolding j_def by (auto elim!: oddE evenE simp: nat_add_distrib nat_mult_distrib)
    have "gf_pow_sq (2 ^ m) poly k =
            (if odd k then ?f ((?f ^^ (j + j)) 1) else (?f ^^ (j + j)) 1)"
      using pos by (subst gf_pow_sq.simps) (simp add: h s Let_def)
    then show ?thesis by (simp add: gf_power_def nk)
  qed
qed

lemma funpow_cycle_mult: "(f ^^ d) x = x \<Longrightarrow> (f ^^ (d * j)) x = x"
  by (induction j) (simp_all add: funpow_add)

lemma funpow_order:
  assumes one: "(f ^^ n) x = x"
    and small: "\<And>d. 0 < d \<Longrightarrow> d \<le> s \<Longrightarrow> d < n \<Longrightarrow> d dvd n \<Longrightarrow> (f ^^ d) x \<noteq> x"
    and large: "\<And>e. 2 \<le> e \<Longrightarrow> e \<le> s \<Longrightarrow> e dvd n \<Longrightarrow> (f ^^ (n div e)) x \<noteq> x"
    and sq: "n \<le> s * s"
  shows "0 < k \<Longrightarrow> k < n \<Longrightarrow> (f ^^ k) x \<noteq> x"
proof (induction k rule: less_induct)
  case (less k)
  show ?case
  proof
    assume fx: "(f ^^ k) x = x"
    define r where "r = n mod k"
    have "n = r + k * (n div k)" by (simp add: r_def)
    then have "(f ^^ n) x = (f ^^ r) ((f ^^ (k * (n div k))) x)"
      by (metis funpow_add comp_apply)
    then have fr: "(f ^^ r) x = x" using one funpow_cycle_mult[OF fx] by simp
    have rk: "r < k" using less.prems(1) by (simp add: r_def)
    show False
    proof (cases "r = 0")
      case False
      with less.IH[of r] rk less.prems fr show False by simp
    next
      case True
      then have dv: "k dvd n" by (simp add: r_def dvd_eq_mod_eq_0)
      show False
      proof (cases "k \<le> s")
        case True
        with small[OF less.prems(1) True less.prems(2) dv] fx show False by simp
      next
        case False
        define e where "e = n div k"
        have ke: "k * e = n" using dv by (simp add: e_def)
        have e2: "2 \<le> e"
        proof (rule ccontr)
          assume "\<not> 2 \<le> e"
          then have "e = 0 \<or> e = 1" by auto
          then show False using ke less.prems by auto
        qed
        have es: "e \<le> s"
        proof (rule ccontr)
          assume "\<not> e \<le> s"
          then have "s < e" by simp
          moreover have "s < k" using False by simp
          ultimately have "s * s < k * e"
            by (meson mult_strict_mono' zero_le)
          then show False using sq ke by simp
        qed
        have "e dvd n" using ke by (metis dvd_triv_right)
        moreover have "n div e = k" using ke e2 by (metis nonzero_mult_div_cancel_right not_numeral_le_zero)
        ultimately show False using large[OF e2 es] fx by simp
      qed
    qed
  qed
qed


section \<open>The supported fields\<close>

lemma gf_fields_table: "map (\<lambda>(m, poly, s). (2 ^ m, poly)) gf_fields = gf_poly_table"
  by code_simp

lemma gf_fields_ok: "list_all gf_field_ok gf_fields"
  by code_simp


lemma gf_order_check_primitive:
  assumes p: "gf_params m poly" and c: "gf_order_check (2 ^ m) poly s"
    and s0: "0 \<le> s" and sq: "2 ^ m - 1 \<le> s * s"
  shows "gf_primitive m poly"
proof -
  let ?N = "2 ^ m - 1 :: nat"
  let ?f = "gf_next (2 ^ m) poly"
  have iN: "int ?N = 2 ^ m - 1" by (simp add: of_nat_diff)
  have pw: "gf_pow_sq (2 ^ m) poly (int d) = (?f ^^ d) 1" for d
    using gf_pow_sq_power[OF p, of "int d"] by (simp add: gf_power_def)
  have one: "(?f ^^ ?N) 1 = 1"
    using c pw[of ?N] by (simp add: gf_order_check_def iN)
  have small: "(?f ^^ d) 1 \<noteq> 1" if "0 < d" "d \<le> nat s" "d < ?N" "d dvd ?N" for d
  proof -
    have mem: "int d \<in> set [1..s]" using that by auto
    have dv: "int d dvd 2 ^ m - 1" using that(4) iN by (metis of_nat_dvd_iff)
    have ne: "int d \<noteq> 2 ^ m - 1" using that(3) iN by linarith
    from c have "list_all (\<lambda>d. \<not> d dvd (2 ^ m - 1) \<or> d = 2 ^ m - 1 \<or> gf_pow_sq (2 ^ m) poly d \<noteq> 1) [1..s]"
      by (simp add: gf_order_check_def)
    with mem dv ne have "gf_pow_sq (2 ^ m) poly (int d) \<noteq> 1"
      unfolding list_all_iff by blast
    then show ?thesis by (simp add: pw)
  qed
  have large: "(?f ^^ (?N div e)) 1 \<noteq> 1" if "2 \<le> e" "e \<le> nat s" "e dvd ?N" for e
  proof -
    have mem: "int e \<in> set [2..s]" using that by auto
    have dv: "int e dvd 2 ^ m - 1" using that(3) iN by (metis of_nat_dvd_iff)
    have dq: "(2 ^ m - 1) div int e = int (?N div e)" using iN by (metis zdiv_int)
    from c have "list_all (\<lambda>e. \<not> e dvd (2 ^ m - 1) \<or> gf_pow_sq (2 ^ m) poly ((2 ^ m - 1) div e) \<noteq> 1) [2..s]"
      by (simp add: gf_order_check_def)
    with mem dv have "gf_pow_sq (2 ^ m) poly ((2 ^ m - 1) div int e) \<noteq> 1"
      unfolding list_all_iff by blast
    then show ?thesis by (simp add: pw dq)
  qed
  have sq': "?N \<le> nat s * nat s"
    using sq s0 iN by (metis nat_mono nat_int nat_mult_distrib)
  have "(?f ^^ k) 1 \<noteq> 1" if "0 < k" "k < ?N" for k
    by (rule funpow_order[where s = "nat s" and n = ?N, OF one small large sq' that])
  then show ?thesis
    using p one by (simp add: gf_primitive_def gf_power_def)
qed

lemma gf_field_primitive:
  assumes "(m, poly, s) \<in> set gf_fields"
  shows "gf_primitive m poly"
proof -
  have "gf_field_ok (m, poly, s)"
    using gf_fields_ok assms unfolding list_all_iff by blast
  then show ?thesis
    by (intro gf_order_check_primitive[where s = s]) (auto simp: gf_field_ok_def gf_params_def)
qed

lemma gf_lookup_field:
  assumes "gf_poly_lookup q = Inr poly"
  shows "\<exists>m s. (m, poly, s) \<in> set gf_fields \<and> q = 2 ^ m"
proof -
  from assms have "map_of gf_poly_table q = Some poly"
    by (auto simp: gf_poly_lookup_def split: option.splits)
  then have "(q, poly) \<in> set gf_poly_table" by (rule map_of_SomeD)
  then have "(q, poly) \<in> set (map (\<lambda>(m, poly, s). (2 ^ m, poly)) gf_fields)"
    by (simp only: gf_fields_table)
  then show ?thesis by auto
qed

lemma gf_field_lookup:
  assumes "(m, poly, s) \<in> set gf_fields"
  shows "gf_poly_lookup (2 ^ m) = Inr poly"
  using assms unfolding gf_fields_def gf_poly_lookup_def gf_poly_table_def
  by auto

section \<open>Consequences of primitivity\<close>

lemma gf_power_add: "gf_power q poly (a + b) = ((gf_next q poly) ^^ a) (gf_power q poly b)"
  by (simp add: gf_power_def funpow_add)

lemma gf_primitive_pos:
  assumes "gf_primitive m poly"
  shows "0 < (2 ^ m - 1 :: nat)"
proof -
  have "0 < m" using assms by (simp add: gf_primitive_def gf_params_def)
  then have "(1::nat) < 2 ^ m" using one_less_power[of "2::nat" m] by simp
  then show ?thesis by simp
qed

lemma gf_power_period:
  assumes "gf_primitive m poly"
  shows "gf_power (2 ^ m) poly (t + (2 ^ m - 1) * j) = gf_power (2 ^ m) poly t"
proof -
  have "((gf_next (2 ^ m) poly) ^^ ((2 ^ m - 1) * j)) 1 = 1"
    using assms by (intro funpow_cycle_mult) (simp add: gf_primitive_def gf_power_def)
  then show ?thesis by (simp add: gf_power_def funpow_add)
qed

lemma gf_power_mod:
  assumes "gf_primitive m poly"
  shows "gf_power (2 ^ m) poly (t mod (2 ^ m - 1)) = gf_power (2 ^ m) poly t"
  using gf_power_period[OF assms, of "t mod (2 ^ m - 1)" "t div (2 ^ m - 1)"] by simp

lemma gf_power_eq_one:
  assumes "gf_primitive m poly" "gf_power (2 ^ m) poly t = 1"
  shows "(2 ^ m - 1) dvd t"
proof (rule ccontr)
  assume nd: "\<not> (2 ^ m - 1) dvd t"
  let ?N = "2 ^ m - 1 :: nat"
  have N: "0 < ?N" by (rule gf_primitive_pos[OF assms(1)])
  have "0 < t mod ?N" using nd by (simp add: dvd_eq_mod_eq_0)
  moreover have "t mod ?N < ?N" using N by simp
  ultimately have "gf_power (2 ^ m) poly (t mod ?N) \<noteq> 1"
    using assms(1) unfolding gf_primitive_def by blast
  then show False using gf_power_mod[OF assms(1), of t] assms(2) by simp
qed

lemma gf_power_inj:
  assumes p: "gf_primitive m poly" and "i < 2 ^ m - 1" "j < 2 ^ m - 1"
    and eq: "gf_power (2 ^ m) poly i = gf_power (2 ^ m) poly j"
  shows "i = j"
proof -
  let ?N = "2 ^ m - 1 :: nat"
  have aux: "a = b" if "a \<le> b" "b < ?N" "gf_power (2 ^ m) poly a = gf_power (2 ^ m) poly b" for a b
  proof -
    have "gf_power (2 ^ m) poly ((?N - b) + a) = gf_power (2 ^ m) poly ((?N - b) + b)"
      using that(3) by (simp only: gf_power_add)
    also have "\<dots> = 1" using that(2) p by (simp add: gf_primitive_def)
    finally have "?N dvd (?N - b) + a" by (rule gf_power_eq_one[OF p])
    moreover have "(?N - b) + a \<le> ?N" using that by simp
    moreover have "0 < (?N - b) + a" using that by simp
    ultimately have "(?N - b) + a = ?N" by (meson dvd_imp_le le_antisym)
    then show ?thesis using that by simp
  qed
  show ?thesis
  proof (cases "i \<le> j")
    case True then show ?thesis using aux[of i j] assms by simp
  next
    case False then show ?thesis using aux[of j i] assms by simp
  qed
qed

lemma gf_power_nonzero:
  assumes p: "gf_primitive m poly"
  shows "gf_power (2 ^ m) poly t \<noteq> 0"
proof
  assume z: "gf_power (2 ^ m) poly t = 0"
  let ?N = "2 ^ m - 1 :: nat"
  define K where "K = ?N * Suc t"
  have le: "t \<le> K"
  proof -
    have "0 < ?N" by (rule gf_primitive_pos[OF p])
    then show ?thesis unfolding K_def by (cases ?N) auto
  qed
  have "gf_power (2 ^ m) poly ((K - t) + t) = 0"
    by (simp only: gf_power_add z funpow_gf_next_zero)
  then have "gf_power (2 ^ m) poly K = 0" using le by simp
  then show False using gf_power_period[OF p, of 0 "Suc t"] by (simp add: K_def gf_power_def)
qed

lemma gf_power_elem:
  assumes p: "gf_primitive m poly"
  shows "1 \<le> gf_power (2 ^ m) poly t \<and> gf_power (2 ^ m) poly t < 2 ^ m"
proof -
  have "gf_params m poly" using p by (simp add: gf_primitive_def)
  from gf_power_range[OF this, of t] gf_power_nonzero[OF p, of t]
  show ?thesis by linarith
qed

lemma gf_power_surj:
  assumes p: "gf_primitive m poly" and x: "1 \<le> x" "x < 2 ^ m"
  shows "\<exists>t < 2 ^ m - 1. gf_power (2 ^ m) poly t = x"
proof -
  let ?N = "2 ^ m - 1 :: nat"
  let ?A = "gf_power (2 ^ m) poly ` {0..<?N}"
  let ?B = "{1..2 ^ m - 1 :: int}"
  have sub: "?A \<subseteq> ?B" using gf_power_elem[OF p] by auto
  have "inj_on (gf_power (2 ^ m) poly) {0..<?N}"
    by (rule inj_onI) (use gf_power_inj[OF p] in auto)
  then have "card ?A = ?N" by (simp add: card_image)
  moreover have "card ?B = ?N" by (simp add: nat_diff_distrib nat_power_eq)
  ultimately have "?A = ?B" using sub by (simp add: card_subset_eq)
  then have "x \<in> ?A" using x by auto
  then show ?thesis by auto
qed


section \<open>Table construction\<close>

lemma for_each_invariant:
  assumes "I 0 s0"
    and "\<And>i s. i < length xs \<Longrightarrow> I i s \<Longrightarrow> \<exists>s'. body (xs ! i) s = Inr s' \<and> I (Suc i) s'"
  shows "\<exists>s'. for_each xs body s0 = Inr s' \<and> I (length xs) s'"
  using assms
proof (induction xs arbitrary: I s0)
  case Nil
  then show ?case by simp
next
  case (Cons x xs)
  from Cons.prems(2)[of 0 s0] Cons.prems(1)
  obtain s1 where s1: "body x s0 = Inr s1" "I (Suc 0) s1" by auto
  have "\<exists>s'. for_each xs body s1 = Inr s' \<and> I (Suc (length xs)) s'"
  proof (rule Cons.IH[where I = "\<lambda>i. I (Suc i)"])
    show "I (Suc 0) s1" by (rule s1(2))
  next
    fix i s assume "i < length xs" "I (Suc i) s"
    then show "\<exists>s'. body (xs ! i) s = Inr s' \<and> I (Suc (Suc i)) s'"
      using Cons.prems(2)[of "Suc i" s] by simp
  qed
  then show ?case by (simp add: s1(1))
qed

lemma py_index_in_range: "0 \<le> i \<Longrightarrow> i < int (length xs) \<Longrightarrow> py_index xs i = Inr (nat i)"
  by (simp add: py_index_def)

lemma py_get_in_range: "0 \<le> i \<Longrightarrow> i < int (length xs) \<Longrightarrow> py_get xs i = Inr (xs ! nat i)"
  by (simp add: py_get_def py_index_in_range)

lemma py_set_in_range: "0 \<le> i \<Longrightarrow> i < int (length xs) \<Longrightarrow> py_set xs i v = Inr (xs[nat i := v])"
  by (simp add: py_set_def py_index_in_range)

lemma py_get_nat: "i < length xs \<Longrightarrow> py_get xs (int i) = Inr (xs ! i)"
  by (simp add: py_get_def py_index_def)

lemma py_set_nat: "i < length xs \<Longrightarrow> py_set xs (int i) v = Inr (xs[i := v])"
  by (simp add: py_set_def py_index_def)

lemma length_py_range [simp]: "length (py_range a b) = nat (b - a)"
  by (simp add: py_range_def)

lemma nth_py_range: "i < nat (b - a) \<Longrightarrow> py_range a b ! i = a + int i"
  by (simp add: py_range_def)

lemma gf_table_step_next:
  "gf_table_step q poly i (x, ex, lg) =
     ebind (py_set ex i (gf_next q poly x)) (\<lambda>ex.
     ebind (py_set lg (gf_next q poly x) i) (\<lambda>lg. Inr (gf_next q poly x, ex, lg)))"
  by (simp add: gf_table_step_def gf_next_def Let_def)

lemma gf_table_first_loop:
  assumes p: "gf_primitive m poly"
  shows "\<exists>x ex lg. for_each (py_range 1 (2 ^ m - 1)) (gf_table_step (2 ^ m) poly)
            (1, replicate (2 * 2 ^ m) 1, replicate (2 ^ m) 0) = Inr (x, ex, lg) \<and>
          length ex = 2 * 2 ^ m \<and> length lg = 2 ^ m \<and>
          (\<forall>t < 2 ^ m - 1. ex ! t = gf_power (2 ^ m) poly t) \<and>
          (\<forall>t < 2 ^ m - 1. lg ! nat (gf_power (2 ^ m) poly t) = int t)"
proof -
  let ?N = "2 ^ m - 1 :: nat"
  let ?pw = "gf_power (2 ^ m) poly"
  let ?xs = "py_range 1 (2 ^ m - 1)"
  have N: "0 < ?N" by (rule gf_primitive_pos[OF p])
  have iN: "int ?N = 2 ^ m - 1" by (simp add: of_nat_diff)
  have "(2::int) ^ m - 1 - 1 = int (?N - 1)" using N by (simp add: of_nat_diff)
  then have len: "length ?xs = ?N - 1" by (simp only: length_py_range nat_int)
  define I where "I = (\<lambda>i (st :: int \<times> int list \<times> int list). case st of (x, ex, lg) \<Rightarrow>
      x = ?pw i \<and> length ex = 2 * 2 ^ m \<and> length lg = 2 ^ m \<and>
      (\<forall>t \<le> i. ex ! t = ?pw t) \<and> (\<forall>t \<le> i. lg ! nat (?pw t) = int t))"
  have init: "I 0 (1, replicate (2 * 2 ^ m) 1, replicate (2 ^ m) 0)"
    using N by (simp add: I_def gf_power_def)
  have step: "\<exists>s'. gf_table_step (2 ^ m) poly (?xs ! i) st = Inr s' \<and> I (Suc i) s'"
    if i: "i < length ?xs" and inv: "I i st" for i st
  proof -
    obtain x ex lg where st: "st = (x, ex, lg)" by (cases st) auto
    from inv st have x: "x = ?pw i" and lex: "length ex = 2 * 2 ^ m" and llg: "length lg = 2 ^ m"
      and exv: "\<forall>t \<le> i. ex ! t = ?pw t" and lgv: "\<forall>t \<le> i. lg ! nat (?pw t) = int t"
      by (auto simp: I_def)
    have i1: "Suc i < ?N" using i len by simp
    have idx: "?xs ! i = int (Suc i)" using i len by (simp add: nth_py_range)
    have nx: "gf_next (2 ^ m) poly x = ?pw (Suc i)" by (simp add: x gf_power_def)
    have el: "1 \<le> ?pw (Suc i) \<and> ?pw (Suc i) < 2 ^ m" by (rule gf_power_elem[OF p])
    have "Suc i < length ex" using i1 lex by simp
    then have s1: "py_set ex (int (Suc i)) (?pw (Suc i)) = Inr (ex[Suc i := ?pw (Suc i)])"
      by (rule py_set_nat)
    have s2: "py_set lg (?pw (Suc i)) (int (Suc i)) = Inr (lg[nat (?pw (Suc i)) := int (Suc i)])"
      using el llg by (subst py_set_in_range) auto
    have ne: "nat (?pw t) \<noteq> nat (?pw (Suc i))" if "t \<le> i" for t
    proof
      assume "nat (?pw t) = nat (?pw (Suc i))"
      then have "?pw t = ?pw (Suc i)" using gf_power_elem[OF p, of t] el by linarith
      then have "t = Suc i" using that i1 by (intro gf_power_inj[OF p]) auto
      then show False using that by simp
    qed
    have a: "(ex[Suc i := ?pw (Suc i)]) ! t = ?pw t" if "t \<le> Suc i" for t
    proof (cases "t = Suc i")
      case True
      then show ?thesis using \<open>Suc i < length ex\<close> by simp
    next
      case False
      then have "t \<le> i" using that by simp
      then show ?thesis using exv False by simp
    qed
    have b: "(lg[nat (?pw (Suc i)) := int (Suc i)]) ! nat (?pw t) = int t" if "t \<le> Suc i" for t
    proof (cases "t = Suc i")
      case True
      have "nat (?pw (Suc i)) < length lg" using el llg by (simp add: nat_less_iff)
      then show ?thesis using True by simp
    next
      case False
      then have ti: "t \<le> i" using that by simp
      then show ?thesis using lgv ne[OF ti] by (simp add: nth_list_update_neq)
    qed
    have "I (Suc i) (?pw (Suc i), ex[Suc i := ?pw (Suc i)], lg[nat (?pw (Suc i)) := int (Suc i)])"
      unfolding I_def using lex llg a b by simp
    then show ?thesis
      by (simp add: st gf_table_step_next nx idx s1 s2 del: of_nat_Suc)
  qed
  have "\<exists>s'. for_each ?xs (gf_table_step (2 ^ m) poly)
            (1, replicate (2 * 2 ^ m) 1, replicate (2 ^ m) 0) = Inr s' \<and> I (length ?xs) s'"
  proof (rule for_each_invariant[where I = I])
    show "I 0 (1, replicate (2 * 2 ^ m) 1, replicate (2 ^ m) 0)" by (rule init)
  next
    fix i st assume "i < length ?xs" "I i st"
    then show "\<exists>s'. gf_table_step (2 ^ m) poly (?xs ! i) st = Inr s' \<and> I (Suc i) s'"
      by (rule step)
  qed
  then obtain s' where r: "for_each ?xs (gf_table_step (2 ^ m) poly)
        (1, replicate (2 * 2 ^ m) 1, replicate (2 ^ m) 0) = Inr s'"
    and fin: "I (length ?xs) s'" by blast
  obtain x ex lg where s': "s' = (x, ex, lg)" by (cases s') auto
  have "t < ?N \<Longrightarrow> t \<le> length ?xs" for t using len by simp
  with fin s' have "length ex = 2 * 2 ^ m \<and> length lg = 2 ^ m \<and>
          (\<forall>t < 2 ^ m - 1. ex ! t = ?pw t) \<and> (\<forall>t < 2 ^ m - 1. lg ! nat (?pw t) = int t)"
    by (auto simp: I_def)
  with r s' show ?thesis by blast
qed


lemma gf_table_second_loop:
  assumes p: "gf_primitive m poly" and lex: "length ex = 2 * 2 ^ m"
    and exv: "\<forall>t < 2 ^ m - 1. ex ! t = gf_power (2 ^ m) poly t"
  shows "\<exists>ex'. for_each (py_range (2 ^ m - 1) (2 ^ m * 2))
            (\<lambda>i ex. ebind (py_get ex (i - (2 ^ m - 1))) (\<lambda>v. py_set ex i v)) ex = Inr ex' \<and>
          length ex' = 2 * 2 ^ m \<and>
          (\<forall>t < 2 * 2 ^ m. ex' ! t = gf_power (2 ^ m) poly (t mod (2 ^ m - 1)))"
proof -
  define N :: nat where "N = 2 ^ m - 1"
  define L :: nat where "L = 2 * 2 ^ m"
  let ?pw = "gf_power (2 ^ m) poly"
  let ?xs = "py_range (2 ^ m - 1) (2 ^ m * 2)"
  let ?body = "\<lambda>i ex. ebind (py_get ex (i - (2 ^ m - 1))) (\<lambda>v. py_set ex i v)"
  have N: "0 < N" unfolding N_def by (rule gf_primitive_pos[OF p])
  have iN: "int N = 2 ^ m - 1" unfolding N_def by (simp add: of_nat_diff)
  have "(2::int) ^ m * 2 - (2 ^ m - 1) = int (Suc (2 ^ m))" by simp
  then have len: "length ?xs = Suc (2 ^ m)" by (simp only: length_py_range nat_int)
  have tot: "N + Suc (2 ^ m) = L" using N unfolding N_def L_def by simp
  have lex': "length ex = L" using lex by (simp add: L_def)
  have exv': "\<forall>t < N. ex ! t = ?pw t" using exv by (simp add: N_def)
  define J where "J = (\<lambda>j (ex :: int list).
      length ex = L \<and> (\<forall>t < N + j. ex ! t = ?pw (t mod N)))"
  have "\<exists>ex'. for_each ?xs ?body ex = Inr ex' \<and> J (length ?xs) ex'"
  proof (rule for_each_invariant[where I = J])
    show "J 0 ex" using lex' exv' by (simp add: J_def)
  next
    fix j and e :: "int list" assume j: "j < length ?xs" and inv: "J j e"
    from inv have le: "length e = L" and ev: "\<forall>t < N + j. e ! t = ?pw (t mod N)"
      by (auto simp: J_def)
    have "?xs ! j = (2 ^ m - 1) + int j"
      using j unfolding length_py_range by (rule nth_py_range)
    then have idx: "?xs ! j = int (N + j)" by (simp only: iN[symmetric] of_nat_add)
    have sub: "int (N + j) - (2 ^ m - 1) = int j" by (simp only: of_nat_add iN)
    have j': "j < Suc (2 ^ m)" using j by (simp only: len)
    have j1: "j < length e" using j' le tot N by linarith
    have j2: "N + j < length e" using j' le tot by linarith
    have g: "py_get e (int j) = Inr (e ! j)" by (rule py_get_nat[OF j1])
    have ej: "e ! j = ?pw (j mod N)" using ev N by simp
    have st: "py_set e (int (N + j)) (e ! j) = Inr (e[N + j := e ! j])" by (rule py_set_nat[OF j2])
    have "(e[N + j := e ! j]) ! t = ?pw (t mod N)" if "t < N + Suc j" for t
    proof (cases "t = N + j")
      case True
      then show ?thesis using j2 ej by simp
    next
      case False
      then have "t < N + j" using that by simp
      then show ?thesis using ev False by simp
    qed
    then have "J (Suc j) (e[N + j := e ! j])" using le by (simp add: J_def)
    then show "\<exists>s'. ?body (?xs ! j) e = Inr s' \<and> J (Suc j) s'"
      by (simp only: idx sub g st ebind.simps) simp
  qed
  then show ?thesis unfolding J_def len tot unfolding N_def L_def by blast
qed

lemma calc_gf_elements_tables:
  assumes p: "gf_primitive m poly" and lk: "gf_poly_lookup (2 ^ m) = Inr poly"
  shows "\<exists>ex lg. calc_gf_elements (2 ^ m - 1) (2 ^ m) = Inr (ex, lg) \<and> gf_tables m poly ex lg"
proof -
  have r1: "nat ((2::int) ^ m * 2) = 2 * 2 ^ m" by (simp add: nat_mult_distrib nat_power_eq)
  have r2: "nat ((2::int) ^ m) = 2 ^ m" by (simp add: nat_power_eq)
  from gf_table_first_loop[OF p]
  obtain x ex lg where l1: "for_each (py_range 1 (2 ^ m - 1)) (gf_table_step (2 ^ m) poly)
            (1, replicate (2 * 2 ^ m) 1, replicate (2 ^ m) 0) = Inr (x, ex, lg)"
    and lex: "length ex = 2 * 2 ^ m" and llg: "length lg = 2 ^ m"
    and exv: "\<forall>t < 2 ^ m - 1. ex ! t = gf_power (2 ^ m) poly t"
    and lgv: "\<forall>t < 2 ^ m - 1. lg ! nat (gf_power (2 ^ m) poly t) = int t"
    by blast
  from gf_table_second_loop[OF p lex exv]
  obtain ex' where l2: "for_each (py_range (2 ^ m - 1) (2 ^ m * 2))
            (\<lambda>i ex. ebind (py_get ex (i - (2 ^ m - 1))) (\<lambda>v. py_set ex i v)) ex = Inr ex'"
    and lex': "length ex' = 2 * 2 ^ m"
    and exv': "\<forall>t < 2 * 2 ^ m. ex' ! t = gf_power (2 ^ m) poly (t mod (2 ^ m - 1))"
    by blast
  have "calc_gf_elements (2 ^ m - 1) (2 ^ m) = Inr (ex', lg)"
    by (simp add: calc_gf_elements_def Let_def lk r1 r2 l1 l2)
  moreover have "gf_tables m poly ex' lg"
    using lex' llg exv' lgv by (simp add: gf_tables_def)
  ultimately show ?thesis by blast
qed

lemma ebind_eq_Inr: "ebind m f = Inr y \<longleftrightarrow> (\<exists>x. m = Inr x \<and> f x = Inr y)"
  by (cases m) auto

lemma RSCodec_field:
  assumes "(m, poly, s) \<in> set gf_fields"
  shows "\<exists>c. RSCodec (2 ^ m - 1) k = Inr c \<and> gf_codec m poly c \<and>
             self_k c = k \<and> self_nsym c = 2 ^ m - 1 - k"
proof -
  have p: "gf_primitive m poly" by (rule gf_field_primitive[OF assms])
  from calc_gf_elements_tables[OF p gf_field_lookup[OF assms]]
  obtain ex lg where "calc_gf_elements (2 ^ m - 1) (2 ^ m) = Inr (ex, lg)" "gf_tables m poly ex lg"
    by blast
  then show ?thesis using p by (simp add: RSCodec_def gf_codec_def)
qed

lemma RSCodec_gf_codec:
  assumes "RSCodec n k = Inr c"
  shows "\<exists>m poly s. (m, poly, s) \<in> set gf_fields \<and> n = 2 ^ m - 1 \<and> gf_codec m poly c \<and>
             self_k c = k \<and> self_nsym c = n - k"
proof -
  from assms obtain tabs where t: "calc_gf_elements n (n + 1) = Inr tabs"
    by (auto simp: RSCodec_def ebind_eq_Inr)
  then obtain poly where "gf_poly_lookup (n + 1) = Inr poly"
    by (auto simp: calc_gf_elements_def Let_def ebind_eq_Inr)
  from gf_lookup_field[OF this] obtain m s where f: "(m, poly, s) \<in> set gf_fields" and n: "n + 1 = 2 ^ m"
    by blast
  then have n': "n = 2 ^ m - 1" by simp
  from RSCodec_field[OF f, of k] assms show ?thesis
    unfolding n' using f by auto
qed


section \<open>Multiplication and division\<close>

lemma gf_codec_exp:
  assumes c: "gf_codec m poly c" and i: "i < 2 * 2 ^ m"
  shows "py_get (gf_exp c) (int i) = Inr (gf_power (2 ^ m) poly i)"
proof -
  have p: "gf_primitive m poly" using c by (simp add: gf_codec_def)
  have "i < length (gf_exp c)" using c i by (simp add: gf_codec_def gf_tables_def)
  then have "py_get (gf_exp c) (int i) = Inr (gf_exp c ! i)" by (rule py_get_nat)
  also have "gf_exp c ! i = gf_power (2 ^ m) poly (i mod (2 ^ m - 1))"
    using c i by (simp add: gf_codec_def gf_tables_def)
  finally show ?thesis using gf_power_mod[OF p, of i] by simp
qed

lemma gf_codec_log:
  assumes c: "gf_codec m poly c" and t: "t < 2 ^ m - 1"
  shows "py_get (gf_log c) (gf_power (2 ^ m) poly t) = Inr (int t)"
proof -
  have p: "gf_primitive m poly" using c by (simp add: gf_codec_def)
  have el: "1 \<le> gf_power (2 ^ m) poly t \<and> gf_power (2 ^ m) poly t < 2 ^ m"
    by (rule gf_power_elem[OF p])
  have "length (gf_log c) = 2 ^ m" using c by (simp add: gf_codec_def gf_tables_def)
  then have "py_get (gf_log c) (gf_power (2 ^ m) poly t) = Inr (gf_log c ! nat (gf_power (2 ^ m) poly t))"
    using el by (intro py_get_in_range) auto
  then show ?thesis using c t by (simp add: gf_codec_def gf_tables_def)
qed

lemma gf_mul_power:
  assumes c: "gf_codec m poly c" and a: "a < 2 ^ m - 1" and b: "b < 2 ^ m - 1"
  shows "gf_mul c (gf_power (2 ^ m) poly a) (gf_power (2 ^ m) poly b) = Inr (gf_power (2 ^ m) poly (a + b))"
proof -
  have p: "gf_primitive m poly" using c by (simp add: gf_codec_def)
  have i: "a + b < 2 * 2 ^ m" using a b by simp
  show ?thesis
    using gf_codec_exp[OF c i]
    by (simp add: gf_mul_def gf_power_nonzero[OF p] gf_codec_log[OF c a] gf_codec_log[OF c b])
qed

lemma gf_div_power:
  assumes c: "gf_codec m poly c" and a: "a < 2 ^ m - 1" and b: "b < 2 ^ m - 1"
  shows "gf_div c (gf_power (2 ^ m) poly a) (gf_power (2 ^ m) poly b) =
           Inr (gf_power (2 ^ m) poly (a + (2 ^ m - 1) - b))"
proof -
  have p: "gf_primitive m poly" using c by (simp add: gf_codec_def)
  have n: "self_n c = int (2 ^ m - 1 :: nat)" using c by (simp add: gf_codec_def of_nat_diff)
  have i: "a + (2 ^ m - 1) - b < 2 * 2 ^ m" using a b by simp
  have e: "int a + int (2 ^ m - 1 :: nat) - int b = int (a + (2 ^ m - 1) - b)" using b by simp
  show ?thesis
    using gf_codec_exp[OF c i]
    by (simp only: gf_div_def gf_power_nonzero[OF p] gf_codec_log[OF c a] gf_codec_log[OF c b]
        ebind.simps if_False n e)
qed

lemma gf_elem_cases:
  assumes c: "gf_codec m poly c" and x: "0 \<le> x" "x < self_q c"
  obtains "x = 0" | t where "t < 2 ^ m - 1" "x = gf_power (2 ^ m) poly t"
proof (cases "x = 0")
  case True then show ?thesis by (rule that(1))
next
  case False
  have p: "gf_primitive m poly" using c by (simp add: gf_codec_def)
  have "1 \<le> x" "x < 2 ^ m" using False x c by (auto simp: gf_codec_def)
  from gf_power_surj[OF p this] show ?thesis using that(2) by blast
qed

lemma gf_mul_total:
  assumes c: "gf_codec m poly c" and x: "0 \<le> x" "x < self_q c" and y: "0 \<le> y" "y < self_q c"
  shows "\<exists>z. gf_mul c x y = Inr z \<and> 0 \<le> z \<and> z < self_q c"
proof -
  have p: "gf_primitive m poly" and q: "self_q c = 2 ^ m" using c by (simp_all add: gf_codec_def)
  show ?thesis
  proof (cases rule: gf_elem_cases[OF c x])
    case 1
    then show ?thesis using q by (simp add: gf_mul_def)
  next
    case (2 a)
    show ?thesis
    proof (cases rule: gf_elem_cases[OF c y])
      case 1
      then show ?thesis using q by (simp add: gf_mul_def)
    next
      case (2 b)
      show ?thesis
        using gf_mul_power[OF c \<open>a < 2 ^ m - 1\<close> \<open>b < 2 ^ m - 1\<close>] gf_power_elem[OF p, of "a + b"] q
        unfolding \<open>x = _\<close> \<open>y = _\<close> by auto
    qed
  qed
qed

lemma gf_div_mul:
  assumes c: "gf_codec m poly c" and x: "0 \<le> x" "x < self_q c" and y: "1 \<le> y" "y < self_q c"
  shows "\<exists>z. gf_mul c x y = Inr z \<and> gf_div c z y = Inr x"
proof -
  have p: "gf_primitive m poly" and q: "self_q c = 2 ^ m" using c by (simp_all add: gf_codec_def)
  define N :: nat where "N = 2 ^ m - 1"
  have N: "0 < N" unfolding N_def by (rule gf_primitive_pos[OF p])
  have y0: "0 \<le> y" "y \<noteq> 0" using y by auto
  show ?thesis
  proof (cases rule: gf_elem_cases[OF c x])
    case 1
    then show ?thesis using y0 by (simp add: gf_mul_def gf_div_def)
  next
    case (2 a)
    show ?thesis
    proof (cases rule: gf_elem_cases[OF c y0(1) y(2)])
      case 1
      then show ?thesis using y0 by simp
    next
      case (2 b)
      define e where "e = (a + b) mod N"
      have e: "e < N" using N by (simp add: e_def)
      have a: "a < N" and b: "b < N" using \<open>a < 2 ^ m - 1\<close> \<open>b < 2 ^ m - 1\<close> by (simp_all add: N_def)
      have z: "gf_mul c x y = Inr (gf_power (2 ^ m) poly e)"
        using gf_mul_power[OF c \<open>a < 2 ^ m - 1\<close> \<open>b < 2 ^ m - 1\<close>] gf_power_mod[OF p, of "a + b"]
        unfolding \<open>x = _\<close> \<open>y = _\<close> e_def N_def by simp
      have "(e + N - b) mod N = (e + (N - b)) mod N" using b by simp
      also have "\<dots> = ((a + b) + (N - b)) mod N" unfolding e_def by (simp add: mod_add_left_eq)
      also have "\<dots> = (a + N) mod N" using b by simp
      also have "\<dots> = a" using a by simp
      finally have m: "(e + N - b) mod N = a" .
      have "gf_div c (gf_power (2 ^ m) poly e) y = Inr (gf_power (2 ^ m) poly (e + N - b))"
        using gf_div_power[OF c, of e b] e b unfolding \<open>y = _\<close> N_def by simp
      also have "gf_power (2 ^ m) poly (e + N - b) = gf_power (2 ^ m) poly ((e + N - b) mod N)"
        using gf_power_mod[OF p, of "e + N - b"] by (simp add: N_def)
      finally have "gf_div c (gf_power (2 ^ m) poly e) y = Inr x"
        unfolding m \<open>x = _\<close> .
      with z show ?thesis by blast
    qed
  qed
qed


section \<open>The tables of a supported field\<close>

lemma supported_field:
  assumes "q \<in> set (map fst gf_poly_table)"
  obtains m poly s where "(m, poly, s) \<in> set gf_fields" "q = 2 ^ m"
proof -
  from assms have "q \<in> set (map fst (map (\<lambda>(m, poly, s). (2 ^ m, poly)) gf_fields))"
    by (simp only: gf_fields_table)
  then show ?thesis using that by auto
qed

text \<open>
  Claim C8: for a supported field size \<open>q\<close> and \<open>n = q - 1\<close>, \<open>calc_gf_elements\<close> builds an \<open>exp\<close>
  table of length \<open>2n\<close> and a \<open>log\<close> table of length \<open>q\<close> with \<open>exp[log[x]] == x\<close> for every
  nonzero \<open>x\<close>, and \<open>exp[i] == exp[i - n]\<close> for every index \<open>i \<ge> n\<close> of the table.  The length is
  not \<open>2n\<close>: the table is allocated as \<open>[1] * (self.q * 2)\<close> and the second loop fills it up to
  \<open>self.q * 2\<close>, so it has \<open>2q = 2n + 2\<close> entries.  For \<open>q = 4\<close> it has 8 entries, not 6.
\<close>

theorem gf_tables_length_counterexample:
  "calc_gf_elements 3 4 = Inr ([1, 2, 3, 1, 2, 3, 1, 2], [0, 0, 1, 2]) \<and>
   length (fst (projr (calc_gf_elements 3 4))) \<noteq> 2 * 3"
  by code_simp

text \<open>
  Claim C8 as amended: for every field size \<open>q\<close> of \<open>_gf_poly\<close> and \<open>n = q - 1\<close>, table
  construction succeeds and produces an \<open>exp\<close> table of length \<open>2q\<close> and a \<open>log\<close> table of length
  \<open>q\<close> such that \<open>exp[log[x]] == x\<close> for every \<open>x\<close> in \<open>[1, q)\<close>, and \<open>exp[i] == exp[i - n]\<close> for
  every index \<open>i\<close> with \<open>n \<le> i < 2q\<close>.
\<close>

theorem gf_tables_built:
  assumes "q \<in> set (map fst gf_poly_table)"
  shows "\<exists>ex lg. calc_gf_elements (q - 1) q = Inr (ex, lg) \<and>
           int (length ex) = 2 * q \<and> int (length lg) = q \<and>
           (\<forall>x. 1 \<le> x \<and> x < q \<longrightarrow> ebind (py_get lg x) (py_get ex) = Inr x) \<and>
           (\<forall>i. q - 1 \<le> i \<and> i < 2 * q \<longrightarrow> py_get ex i = py_get ex (i - (q - 1)))"
proof -
  from assms obtain m poly s where f: "(m, poly, s) \<in> set gf_fields" and q: "q = 2 ^ m"
    by (rule supported_field)
  have p: "gf_primitive m poly" by (rule gf_field_primitive[OF f])
  define N :: nat where "N = 2 ^ m - 1"
  have N: "0 < N" unfolding N_def by (rule gf_primitive_pos[OF p])
  have iN: "int N = 2 ^ m - 1" unfolding N_def by (simp add: of_nat_diff)
  from calc_gf_elements_tables[OF p gf_field_lookup[OF f]]
  obtain ex lg where r: "calc_gf_elements (2 ^ m - 1) (2 ^ m) = Inr (ex, lg)"
    and t: "gf_tables m poly ex lg" by blast
  from t have lex: "length ex = 2 * 2 ^ m" and llg: "length lg = 2 ^ m"
    and exv: "\<And>t. t < 2 * 2 ^ m \<Longrightarrow> ex ! t = gf_power (2 ^ m) poly (t mod N)"
    and lgv: "\<And>t. t < N \<Longrightarrow> lg ! nat (gf_power (2 ^ m) poly t) = int t"
    by (auto simp: gf_tables_def N_def)
  have a: "ebind (py_get lg x) (py_get ex) = Inr x" if "1 \<le> x" "x < 2 ^ m" for x
  proof -
    from gf_power_surj[OF p that] obtain t where t: "t < N" "gf_power (2 ^ m) poly t = x"
      by (auto simp: N_def)
    have "py_get lg x = Inr (lg ! nat x)" using that llg by (intro py_get_in_range) auto
    also have "lg ! nat x = int t" using lgv[OF t(1)] t(2) by simp
    finally have g: "py_get lg x = Inr (int t)" .
    have tl: "t < length ex" using t(1) lex N_def by simp
    have "ex ! t = x" using exv[of t] t tl lex by simp
    then show ?thesis using py_get_nat[OF tl] by (simp add: g)
  qed
  have b: "py_get ex i = py_get ex (i - (2 ^ m - 1))" if "2 ^ m - 1 \<le> i" "i < 2 * 2 ^ m" for i
  proof -
    define j where "j = nat (i - (2 ^ m - 1))"
    have i: "i = int (N + j)" and sub: "i - (2 ^ m - 1) = int j" using that iN by (simp_all add: j_def)
    have l1: "N + j < length ex"
      using that lex i by (metis of_nat_less_iff of_nat_mult of_nat_numeral of_nat_power)
    have l2: "j < length ex" using l1 by simp
    have e: "ex ! (N + j) = ex ! j" using exv[of "N + j"] exv[of j] l1 l2 lex by simp
    have "py_get ex i = py_get ex (int (N + j))" by (simp only: i)
    also have "\<dots> = Inr (ex ! (N + j))" by (rule py_get_nat[OF l1])
    also have "\<dots> = py_get ex (int j)" unfolding e by (rule py_get_nat[OF l2, symmetric])
    finally show ?thesis by (simp only: sub)
  qed
  show ?thesis
    unfolding q using r lex llg a b by (intro exI[of _ ex] exI[of _ lg]) simp
qed

theorem gf_tables_built_witness:
  "calc_gf_elements 7 8 =
     Inr ([1, 2, 4, 3, 6, 7, 5, 1, 2, 4, 3, 6, 7, 5, 1, 2], [0, 0, 1, 3, 2, 6, 4, 5]) \<and>
   ebind (py_get [0, 0, 1, 3, 2, 6, 4, 5 :: int] 6)
     (py_get [1, 2, 4, 3, 6, 7, 5, 1, 2, 4, 3, 6, 7, 5, 1, 2 :: int]) = Inr 6 \<and>
   py_get [1, 2, 4, 3, 6, 7, 5, 1, 2, 4, 3, 6, 7, 5, 1, 2 :: int] 12 =
   py_get [1, 2, 4, 3, 6, 7, 5, 1, 2, 4, 3, 6, 7, 5, 1, 2 :: int] 5"
proof -
  have h: "(8::int) \<in> set (map fst gf_poly_table)" by (simp add: gf_poly_table_def)
  have e: "calc_gf_elements 7 8 =
      Inr ([1, 2, 4, 3, 6, 7, 5, 1, 2, 4, 3, 6, 7, 5, 1, 2], [0, 0, 1, 3, 2, 6, 4, 5])"
    by code_simp
  from gf_tables_built [OF h] e show ?thesis
    by (simp add: py_get_def py_index_def)
qed

section \<open>Division undoes multiplication\<close>

text \<open>
  Claim C10: in every codec over a supported field size \<open>q\<close>, \<open>gf_mul\<close> does not raise for
  arguments in \<open>[0, q)\<close>, and \<open>gf_div(gf_mul(x, y), y) == x\<close> for every \<open>x\<close> in \<open>[0, q)\<close> and
  every \<open>y\<close> in \<open>[1, q)\<close>.
\<close>

theorem gf_div_undoes_gf_mul:
  assumes "RSCodec n k = Inr c" and "0 \<le> x" "x < self_q c" and "0 \<le> y" "y < self_q c"
  shows "\<exists>z. gf_mul c x y = Inr z \<and> (y \<noteq> 0 \<longrightarrow> gf_div c z y = Inr x)"
proof -
  from RSCodec_gf_codec[OF assms(1)] obtain m poly where c: "gf_codec m poly c" by blast
  show ?thesis
  proof (cases "y = 0")
    case True
    then show ?thesis by (simp add: gf_mul_def)
  next
    case False
    then have "1 \<le> y" using assms(4) by simp
    from gf_div_mul[OF c assms(2,3) this assms(5)] show ?thesis by blast
  qed
qed

theorem gf_div_undoes_gf_mul_witness:
  "gf_mul default_codec 3 5 = Inr 4 \<and> gf_div default_codec 4 5 = Inr 3"
proof -
  have q: "self_q default_codec = 8" by (simp add: default_codec_val)
  have m: "gf_mul default_codec 3 5 = Inr 4"
    by (simp add: default_codec_val gf_mul_def py_get_def py_index_def)
  from gf_div_undoes_gf_mul [OF default_codec_eq, of 3 5] q m show ?thesis by simp
qed
section \<open>Loops that cannot fail\<close>

lemma for_each_total:
  assumes "P s0"
    and "\<And>x s. x \<in> set xs \<Longrightarrow> P s \<Longrightarrow> \<exists>s'. body x s = Inr s' \<and> P s'"
  shows "\<exists>s'. for_each xs body s0 = Inr s' \<and> P s'"
  using assms
proof (induction xs arbitrary: s0)
  case Nil
  then show ?case by simp
next
  case (Cons x xs)
  from Cons.prems(2)[of x s0] Cons.prems(1) obtain s1 where s1: "body x s0 = Inr s1" "P s1" by auto
  from Cons.IH[OF s1(2)] Cons.prems(2) show ?case by (simp add: s1(1))
qed

lemma emap_total:
  assumes "\<And>x. x \<in> set xs \<Longrightarrow> \<exists>y. f x = Inr y \<and> P y"
  shows "\<exists>ys. emap f xs = Inr ys \<and> length ys = length xs \<and> (\<forall>y \<in> set ys. P y)"
  using assms
proof (induction xs)
  case Nil
  then show ?case by simp
next
  case (Cons x xs)
  from Cons.prems[of x] obtain y where y: "f x = Inr y" "P y" by auto
  from Cons.IH Cons.prems obtain ys where ys: "emap f xs = Inr ys" "length ys = length xs" "\<forall>y \<in> set ys. P y"
    by auto
  show ?case by (rule exI[of _ "y # ys"]) (simp add: y ys)
qed

lemma gf_elem_xor:
  assumes c: "gf_codec m poly c" and "0 \<le> x \<and> x < self_q c" "0 \<le> y \<and> y < self_q c"
  shows "0 \<le> x XOR y \<and> x XOR y < self_q c"
  using assms xor_in_range[of x m y] by (simp add: gf_codec_def)

lemma gf_codec_q: "gf_codec m poly c \<Longrightarrow> 1 < self_q c"
proof -
  assume c: "gf_codec m poly c"
  then have "0 < m" by (simp add: gf_codec_def gf_primitive_def gf_params_def)
  then have "(1::int) < 2 ^ m" using one_less_power[of "2::int" m] by simp
  then show ?thesis using c by (simp add: gf_codec_def)
qed

lemma gf_div_total:
  assumes c: "gf_codec m poly c" and x: "0 \<le> x" "x < self_q c" and y: "0 \<le> y" "y < self_q c" "y \<noteq> 0"
  shows "\<exists>z. gf_div c x y = Inr z \<and> 0 \<le> z \<and> z < self_q c"
proof -
  have p: "gf_primitive m poly" and q: "self_q c = 2 ^ m" using c by (simp_all add: gf_codec_def)
  show ?thesis
  proof (cases rule: gf_elem_cases[OF c y(1,2)])
    case 1
    then show ?thesis using y by simp
  next
    case (2 b)
    show ?thesis
    proof (cases rule: gf_elem_cases[OF c x])
      case 1
      then show ?thesis using y q by (simp add: gf_div_def)
    next
      case (2 a)
      show ?thesis
        using gf_div_power[OF c \<open>a < 2 ^ m - 1\<close> \<open>b < 2 ^ m - 1\<close>]
          gf_power_elem[OF p, of "a + (2 ^ m - 1) - b"] q
        unfolding \<open>x = _\<close> \<open>y = _\<close> by auto
    qed
  qed
qed

lemma gf_poly_scale_total:
  assumes c: "gf_codec m poly c" and p: "gf_elems c p" and x: "0 \<le> x" "x < self_q c"
  shows "\<exists>r. gf_poly_scale c p x = Inr r \<and> length r = length p \<and> gf_elems c r"
  unfolding gf_poly_scale_def gf_elems_def
  using p x by (intro emap_total gf_mul_total[OF c]) (auto simp: gf_elems_def)

section \<open>Polynomial addition\<close>

lemma fold_upt_Suc: "fold f [0..<Suc k] s = f k (fold f [0..<k] s)"
  by simp

lemma gf_poly_add_first:
  assumes "length r0 = M" "length p \<le> M" "k \<le> length p"
  shows "length (fold (\<lambda>i r. r[i + length r - length p := p ! i]) [0..<k] r0) = M \<and>
         (\<forall>t < M. fold (\<lambda>i r. r[i + length r - length p := p ! i]) [0..<k] r0 ! t =
            (if M - length p \<le> t \<and> t < M - length p + k then p ! (t - (M - length p)) else r0 ! t))"
  using assms(3)
proof (induction k)
  case 0
  then show ?case using assms(1) by auto
next
  case (Suc k)
  let ?r = "fold (\<lambda>i r. r[i + length r - length p := p ! i]) [0..<k] r0"
  from Suc have len: "length ?r = M"
    and val: "\<And>t. t < M \<Longrightarrow> ?r ! t =
            (if M - length p \<le> t \<and> t < M - length p + k then p ! (t - (M - length p)) else r0 ! t)"
    by auto
  have idx: "k + length ?r - length p = M - length p + k" using len assms(2) by simp
  have lt: "M - length p + k < M" using Suc.prems assms(2) by simp
  show ?case
    unfolding fold_upt_Suc idx
    using len val lt by (auto simp: nth_list_update)
qed

lemma gf_poly_add_second:
  assumes "length r0 = M" "length q \<le> M" "k \<le> length q"
  shows "length (fold (\<lambda>i r. r[i + length r - length q := r ! (i + length r - length q) XOR q ! i])
            [0..<k] r0) = M \<and>
         (\<forall>t < M. fold (\<lambda>i r. r[i + length r - length q := r ! (i + length r - length q) XOR q ! i])
            [0..<k] r0 ! t =
            (if M - length q \<le> t \<and> t < M - length q + k then r0 ! t XOR q ! (t - (M - length q))
             else r0 ! t))"
  using assms(3)
proof (induction k)
  case 0
  then show ?case using assms(1) by auto
next
  case (Suc k)
  let ?f = "\<lambda>i r. r[i + length r - length q := r ! (i + length r - length q) XOR q ! i]"
  let ?r = "fold ?f [0..<k] r0"
  from Suc have len: "length ?r = M"
    and val: "\<And>t. t < M \<Longrightarrow> ?r ! t =
            (if M - length q \<le> t \<and> t < M - length q + k then r0 ! t XOR q ! (t - (M - length q))
             else r0 ! t)"
    by auto
  have idx: "k + length ?r - length q = M - length q + k" using len assms(2) by simp
  have lt: "M - length q + k < M" using Suc.prems assms(2) by simp
  show ?case
    unfolding fold_upt_Suc idx
    using len val lt by (auto simp: nth_list_update)
qed

lemma length_gf_poly_add [simp]: "length (gf_poly_add p q) = max (length p) (length q)"
  unfolding gf_poly_add_def Let_def
  using gf_poly_add_second[of _ "max (length p) (length q)" q "length q"]
    gf_poly_add_first[of "replicate (max (length p) (length q)) 0" "max (length p) (length q)" p "length p"]
  by simp

lemma nth_gf_poly_add:
  assumes "t < max (length p) (length q)"
  shows "gf_poly_add p q ! t =
     (if max (length p) (length q) - length p \<le> t then p ! (t - (max (length p) (length q) - length p)) else 0)
     XOR
     (if max (length p) (length q) - length q \<le> t then q ! (t - (max (length p) (length q) - length q)) else 0)"
proof -
  let ?M = "max (length p) (length q)"
  let ?r1 = "fold (\<lambda>i r. r[i + length r - length p := p ! i]) [0..<length p] (replicate ?M 0)"
  from gf_poly_add_first[of "replicate ?M 0" ?M p "length p"]
  have l1: "length ?r1 = ?M"
    and v1: "\<And>t. t < ?M \<Longrightarrow> ?r1 ! t = (if ?M - length p \<le> t then p ! (t - (?M - length p)) else 0)"
    by auto
  from gf_poly_add_second[OF l1, of q "length q"]
  have v2: "\<And>t. t < ?M \<Longrightarrow>
      fold (\<lambda>i r. r[i + length r - length q := r ! (i + length r - length q) XOR q ! i]) [0..<length q] ?r1 ! t =
        (if ?M - length q \<le> t then ?r1 ! t XOR q ! (t - (?M - length q)) else ?r1 ! t)"
    by auto
  show ?thesis
    unfolding gf_poly_add_def Let_def using v2[OF assms] v1[OF assms] by simp
qed

lemma gf_elems_gf_poly_add:
  assumes c: "gf_codec m poly c" and p: "gf_elems c p" and q: "gf_elems c q"
  shows "gf_elems c (gf_poly_add p q)"
proof -
  have z: "0 \<le> (0::int) \<and> 0 < self_q c" using gf_codec_q[OF c] by simp
  have "0 \<le> gf_poly_add p q ! t \<and> gf_poly_add p q ! t < self_q c" if "t < max (length p) (length q)" for t
  proof -
    let ?M = "max (length p) (length q)"
    have a: "0 \<le> (if ?M - length p \<le> t then p ! (t - (?M - length p)) else 0) \<and>
             (if ?M - length p \<le> t then p ! (t - (?M - length p)) else 0) < self_q c"
      using p that z unfolding gf_elems_def by (auto simp: max_def split: if_splits)
    have b: "0 \<le> (if ?M - length q \<le> t then q ! (t - (?M - length q)) else 0) \<and>
             (if ?M - length q \<le> t then q ! (t - (?M - length q)) else 0) < self_q c"
      using q that z unfolding gf_elems_def by (auto simp: max_def split: if_splits)
    show ?thesis unfolding nth_gf_poly_add[OF that] by (rule gf_elem_xor[OF c a b])
  qed
  then show ?thesis unfolding gf_elems_def by (auto simp: in_set_conv_nth)
qed

section \<open>The Berlekamp-Massey loop\<close>

lemma gf_elemsD: "gf_elems c p \<Longrightarrow> i < length p \<Longrightarrow> 0 \<le> p ! i \<and> p ! i < self_q c"
  by (simp add: gf_elems_def)

lemma rs_find_errors_delta_total:
  assumes c: "gf_codec m poly c" and s: "gf_elems c synd" and e: "gf_elems c err_poly"
    and i: "i < length synd" and l: "length err_poly \<le> Suc i"
  shows "\<exists>d. rs_find_errors_delta c synd err_poly i = Inr d \<and> 0 \<le> d \<and> d < self_q c"
proof -
  let ?body = "\<lambda>j delta.
       ebind (py_get err_poly (int (length err_poly) - 1 - int j)) (\<lambda>a.
       ebind (py_get synd (int i - int j)) (\<lambda>b.
       ebind (gf_mul c a b) (\<lambda>v. Inr (delta XOR v))))"
  have g: "py_get synd (int i) = Inr (synd ! i)" by (rule py_get_nat[OF i])
  have d0: "0 \<le> synd ! i \<and> synd ! i < self_q c" by (rule gf_elemsD[OF s i])
  have "\<exists>d. for_each [1..<length err_poly] ?body (synd ! i) = Inr d \<and> (0 \<le> d \<and> d < self_q c)"
  proof (rule for_each_total[where P = "\<lambda>d. 0 \<le> d \<and> d < self_q c"])
    show "0 \<le> synd ! i \<and> synd ! i < self_q c" by (rule d0)
  next
    fix j d assume j: "j \<in> set [1..<length err_poly]" and d: "0 \<le> d \<and> d < self_q c"
    from j have j1: "1 \<le> j" and j2: "j < length err_poly" by auto
    define a where "a = length err_poly - 1 - j"
    have a: "a < length err_poly" using j2 by (simp add: a_def)
    have ia: "int (length err_poly) - 1 - int j = int a" using j1 j2 by (simp add: a_def)
    have b: "i - j < length synd" using i by simp
    have ib: "int i - int j = int (i - j)" using j2 l by simp
    have ga: "py_get err_poly (int (length err_poly) - 1 - int j) = Inr (err_poly ! a)"
      unfolding ia by (rule py_get_nat[OF a])
    have gb: "py_get synd (int i - int j) = Inr (synd ! (i - j))"
      unfolding ib by (rule py_get_nat[OF b])
    from gf_mul_total[OF c] gf_elemsD[OF e a] gf_elemsD[OF s b]
    obtain v where v: "gf_mul c (err_poly ! a) (synd ! (i - j)) = Inr v" "0 \<le> v" "v < self_q c"
      by blast
    have "0 \<le> d XOR v \<and> d XOR v < self_q c" using gf_elem_xor[OF c d] v by simp
    then show "\<exists>s'. ?body j d = Inr s' \<and> (0 \<le> s' \<and> s' < self_q c)"
      by (simp add: ga gb v(1))
  qed
  then show ?thesis by (simp add: rs_find_errors_delta_def g)
qed

lemma rs_find_errors_step_total:
  assumes c: "gf_codec m poly c" and s: "gf_elems c synd" and i: "i < length synd"
    and e: "gf_elems c ep" and old: "gf_elems c oldp"
    and le: "length ep \<le> Suc i" and lo: "length oldp \<le> Suc i"
  shows "\<exists>ep' oldp'. rs_find_errors_step c synd i (ep, oldp) = Inr (ep', oldp') \<and>
           gf_elems c ep' \<and> gf_elems c oldp' \<and>
           length ep' \<le> Suc (Suc i) \<and> length oldp' \<le> Suc (Suc i)"
proof -
  from rs_find_errors_delta_total[OF c s e i le]
  obtain d where d: "rs_find_errors_delta c synd ep i = Inr d" "0 \<le> d" "d < self_q c" by blast
  have q1: "1 < self_q c" by (rule gf_codec_q[OF c])
  have old0: "gf_elems c (oldp @ [0])" using old q1 by (auto simp: gf_elems_def)
  show ?thesis
  proof (cases "d = 0")
    case True
    then show ?thesis
      using d e old0 le lo by (simp add: rs_find_errors_step_def)
  next
    case False
    show ?thesis
    proof (cases "length (oldp @ [0]) > length ep")
      case True
      from gf_poly_scale_total[OF c old0 d(2,3)]
      obtain np where np: "gf_poly_scale c (oldp @ [0]) d = Inr np" "length np = length (oldp @ [0])" "gf_elems c np"
        by blast
      from gf_div_total[OF c _ _ d(2,3) False, of 1] q1
      obtain inv where inv: "gf_div c 1 d = Inr inv" "0 \<le> inv" "inv < self_q c" by auto
      from gf_poly_scale_total[OF c e inv(2,3)]
      obtain op' where op': "gf_poly_scale c ep inv = Inr op'" "length op' = length ep" "gf_elems c op'"
        by blast
      from gf_poly_scale_total[OF c op'(3) d(2,3)]
      obtain sc where sc: "gf_poly_scale c op' d = Inr sc" "length sc = length op'" "gf_elems c sc"
        by blast
      have "gf_elems c (gf_poly_add np sc)" by (rule gf_elems_gf_poly_add[OF c np(3) sc(3)])
      moreover have "length (gf_poly_add np sc) \<le> Suc (Suc i)"
        using np(2) sc(2) op'(2) le lo by simp
      moreover have "length op' \<le> Suc (Suc i)" using op'(2) le by simp
      ultimately show ?thesis
        using True False d(1) np(1) inv(1) op'(1,3) sc(1)
        by (simp add: rs_find_errors_step_def)
    next
      case nosw: False
      from gf_poly_scale_total[OF c old0 d(2,3)]
      obtain sc where sc: "gf_poly_scale c (oldp @ [0]) d = Inr sc" "length sc = length (oldp @ [0])" "gf_elems c sc"
        by blast
      have "gf_elems c (gf_poly_add ep sc)" by (rule gf_elems_gf_poly_add[OF c e sc(3)])
      moreover have "length (gf_poly_add ep sc) \<le> Suc (Suc i)"
        using sc(2) le lo by simp
      ultimately show ?thesis
        using nosw False d(1) sc(1) old0 lo
        by (simp add: rs_find_errors_step_def)
    qed
  qed
qed

lemma rs_find_errors_poly_total:
  assumes c: "gf_codec m poly c" and s: "gf_elems c synd"
  shows "\<exists>ep. rs_find_errors_poly c synd = Inr ep \<and> gf_elems c ep \<and> length ep \<le> Suc (length synd)"
proof -
  define I where "I = (\<lambda>i (st :: int list \<times> int list).
     gf_elems c (fst st) \<and> gf_elems c (snd st) \<and> length (fst st) \<le> Suc i \<and> length (snd st) \<le> Suc i)"
  have q1: "1 < self_q c" by (rule gf_codec_q[OF c])
  have "\<exists>st. for_each [0..<length synd] (rs_find_errors_step c synd) ([1], [1]) = Inr st \<and>
          I (length [0..<length synd]) st"
  proof (rule for_each_invariant[where I = I])
    show "I 0 ([1], [1])" using q1 by (simp add: I_def gf_elems_def)
  next
    fix i st assume i: "i < length [0..<length synd]" and inv: "I i st"
    obtain ep oldp where st: "st = (ep, oldp)" by (cases st) auto
    have i': "i < length synd" using i by simp
    from inv st have "gf_elems c ep" "gf_elems c oldp" "length ep \<le> Suc i" "length oldp \<le> Suc i"
      by (auto simp: I_def)
    from rs_find_errors_step_total[OF c s i' this]
    show "\<exists>s'. rs_find_errors_step c synd ([0..<length synd] ! i) st = Inr s' \<and> I (Suc i) s'"
      using i' by (auto simp: st I_def)
  qed
  then show ?thesis by (auto simp: rs_find_errors_poly_def I_def)
qed

lemma rs_find_errors_too_many:
  assumes "rs_find_errors_poly c synd = Inr ep"
  shows "rs_find_errors c synd nmess = Inl (ReedSolomonError ''Too many errors to correct'')
           \<longleftrightarrow> (int (length ep) - 1) * 2 > int (length synd)"
proof (cases "(int (length ep) - 1) * 2 > int (length synd)")
  case True
  then show ?thesis by (simp add: rs_find_errors_def assms)
next
  case False
  have "fails_in {IndexError} (ebind (rs_find_errors_roots c ep nmess) (\<lambda>err_pos.
           if int (length err_pos) \<noteq> int (length ep) - 1 then Inr None
           else Inr (Some err_pos)))"
    by (intro fails_in_ebind fails_in_rs_find_errors_roots) auto
  then have "ebind (rs_find_errors_roots c ep nmess) (\<lambda>err_pos.
           if int (length err_pos) \<noteq> int (length ep) - 1 then Inr None
           else Inr (Some err_pos)) \<noteq> Inl (ReedSolomonError ''Too many errors to correct'')"
    by (rule fails_in_D) simp
  then show ?thesis using False by (simp add: rs_find_errors_def assms Let_def)
qed

lemma rs_find_errors_count:
  assumes "rs_find_errors_poly c synd = Inr ep" and "rs_find_errors c synd nmess = Inr (Some err_pos)"
  shows "int (length err_pos) = int (length ep) - 1"
  using assms(2)
  by (auto simp: rs_find_errors_def assms(1) Let_def ebind_eq_Inr split: if_splits)

text \<open>
  Claim C5: for every syndrome sequence given to \<open>rs_find_errors\<close>, the Berlekamp-Massey loop
  runs over all syndromes and ends with a polynomial \<open>err_poly\<close>; the error count is
  \<open>len(err_poly) - 1\<close>, and \<open>rs_find_errors\<close> raises
  \<open>ReedSolomonError("Too many errors to correct")\<close> exactly when twice this count exceeds the
  length of the syndrome sequence.  When positions are returned, there are exactly
  \<open>len(err_poly) - 1\<close> of them.  The syndromes are field elements of a codec that the
  constructor returned.
\<close>

theorem too_many_errors:
  assumes "RSCodec n k = Inr c" and "gf_elems c synd"
  shows "\<exists>err_poly. rs_find_errors_poly c synd = Inr err_poly \<and>
           (rs_find_errors c synd nmess = Inl (ReedSolomonError ''Too many errors to correct'')
              \<longleftrightarrow> (int (length err_poly) - 1) * 2 > int (length synd)) \<and>
           (\<forall>err_pos. rs_find_errors c synd nmess = Inr (Some err_pos) \<longrightarrow>
              int (length err_pos) = int (length err_poly) - 1)"
proof -
  from RSCodec_gf_codec[OF assms(1)] obtain m poly where c: "gf_codec m poly c" by blast
  from rs_find_errors_poly_total[OF c assms(2)]
  obtain ep where ep: "rs_find_errors_poly c synd = Inr ep" by blast
  from rs_find_errors_too_many[OF ep] rs_find_errors_count[OF ep] ep show ?thesis by blast
qed

theorem too_many_errors_witness:
  "rs_find_errors_poly default_codec [0, 0, 0, 5] = Inr [5, 0, 0, 0, 1] \<and>
   rs_find_errors default_codec [0, 0, 0, 5] 7 = Inl (ReedSolomonError ''Too many errors to correct'') \<and>
   rs_find_errors_poly default_codec [1, 6] = Inr [6, 1] \<and>
   rs_find_errors default_codec [1, 6] 5 = Inr (Some [0])"
proof -
  have e1: "gf_elems default_codec [0, 0, 0, 5]" and e2: "gf_elems default_codec [1, 6]"
    by (simp_all add: gf_elems_def default_codec_val)
  have p1: "rs_find_errors_poly default_codec [0, 0, 0, 5] = Inr [5, 0, 0, 0, 1]"
    unfolding default_codec_def by code_simp
  have p2: "rs_find_errors_poly default_codec [1, 6] = Inr [6, 1]"
    unfolding default_codec_def by code_simp
  have r2: "rs_find_errors default_codec [1, 6] 5 = Inr (Some [0])"
    unfolding default_codec_def by code_simp
  from too_many_errors [OF default_codec_eq e1, of 7] too_many_errors [OF default_codec_eq e2, of 5]
  show ?thesis by (simp add: p1 p2 r2)
qed

end
